theory Spec2Isabelle
  imports Main "HOL-Library.Word" "HOL-Library.Sublist" "HOL-Library.Multiset"
begin

section \<open>Strings, items and the environment of \<open>get-entry.js\<close>\<close>

text \<open>
  A JavaScript string is a sequence of UTF-16 code units; \<open>length\<close> counts them, as
  the source's \<open>.length\<close> does.
\<close>

type_synonym jschar = "16 word"
type_synonym jsstring = "jschar list"
type_synonym data = "8 word list"

definition slash :: jschar where
  "slash = 0x2F"

text \<open>\<open>s.split(sep)\<close> for a one-unit separator: never empty, \<open>''.split('/')\<close> is \<open>['']\<close>.\<close>

fun split_str :: "jschar \<Rightarrow> jsstring \<Rightarrow> jsstring list" where
  "split_str sep [] = [[]]"
| "split_str sep (c # cs) =
     (if c = sep then [] # split_str sep cs
      else (case split_str sep cs of
              [] \<Rightarrow> [[c]]
            | s # ss \<Rightarrow> (c # s) # ss))"

text \<open>\<open>url.split('/').slice(-1)[0]\<close>: the last segment.\<close>

definition lastSegment :: "jsstring \<Rightarrow> jsstring" where
  "lastSegment url = last (split_str slash url)"

text \<open>The template \<open>`${dst}/${name}`\<close>.\<close>

definition localPath :: "jsstring \<Rightarrow> jsstring \<Rightarrow> jsstring" where
  "localPath dst url = dst @ [slash] @ lastSegment url"

text \<open>
  A post as \<open>downloadImage\<close> reads it. \<open>None\<close> is an absent (undefined) property.
  \<open>imgDownloaded\<close> is truthy exactly when it is \<open>Some True\<close>; an array is always
  truthy, so \<open>!item.imgPaths\<close> holds exactly when \<open>imgPaths\<close> is \<open>None\<close>.
\<close>

record item =
  abstract :: "jsstring option"
  imgUrls :: "jsstring list"
  imgDownloaded :: "bool option"
  imgPaths :: "jsstring list option"

text \<open>
  The \<open>response\<close> object of \<open>$http.request\<close> and \<open>$http.get\<close>, with the raw data
  beside it. \<open>error\<close> is whether the error property is truthy; an absent
  \<open>expectedContentLength\<close> is \<open>None\<close>.
\<close>

record http_response =
  statusCode :: int
  error :: bool
  expectedContentLength :: "int option"
  rawData :: data

text \<open>
  The file system of \<open>$file\<close>: regular files with their contents, and directories.
\<close>

record filesystem =
  files :: "jsstring \<Rightarrow> data option"
  dirs :: "jsstring \<Rightarrow> bool"

definition file_exists :: "filesystem \<Rightarrow> jsstring \<Rightarrow> bool" where
  "file_exists fs p = (files fs p \<noteq> None \<or> dirs fs p)"

definition under :: "jsstring \<Rightarrow> jsstring \<Rightarrow> bool" where
  "under p q = (q = p \<or> prefix (p @ [slash]) q)"

definition file_delete :: "filesystem \<Rightarrow> jsstring \<Rightarrow> filesystem" where
  "file_delete fs p =
     fs\<lparr>files := (\<lambda>q. if under p q then None else files fs q),
        dirs := (\<lambda>q. if under p q then False else dirs fs q)\<rparr>"

definition make_dir :: "filesystem \<Rightarrow> jsstring \<Rightarrow> filesystem" where
  "make_dir fs p = fs\<lparr>dirs := (dirs fs)(p := True)\<rparr>"

definition put_file :: "filesystem \<Rightarrow> jsstring \<Rightarrow> data \<Rightarrow> filesystem" where
  "put_file fs p d = fs\<lparr>files := (files fs)(p \<mapsto> d)\<rparr>"

text \<open>
  What \<open>await doWithTimeout(op, maxTime, ...)\<close> does: the operation's value, its
  failure, or the timeout's failure.
\<close>

datatype 'a outcome = Returns 'a | Throws | TimesOut

text \<open>
  The constants of \<open>./constant\<close>, which is not among the sources: parameters.
\<close>

record constants =
  POST_INFO_TIMEOUT :: int
  IMAGE_TIMEOUT :: int
  IMAGE_DOWNLOAD_DIR :: jsstring
  MAX_NUMBER_OF_POST :: int
  DEFAULT_REFRESH_CIRCLE :: int
  MAX_IMAGE_SIZE :: int
  IMAGE_CLEAR_INTERVAL :: int
  MAX_ABSTRACT_LEN_ALLOWING_TWO_IMAGES :: int

text \<open>
  The collaborators the code calls, as oracles.
  \<^item> \<open>httpHead\<close>, \<open>httpGet\<close>: the responses of \<open>$http.request({method: 'HEAD', url})\<close>
    and \<open>$http.get({url})\<close>.
  \<^item> \<open>fileWrite\<close>: whether \<open>$file.write({path, data})\<close> succeeds; a write that succeeds
    leaves the file, one that fails leaves the file system as it was.
  \<^item> \<open>mkdir\<close>: whether \<open>$file.mkdir(path)\<close> succeeds.
  \<^item> \<open>latency\<close>: in a call of \<open>downloadImage\<close> taken on its own, the concurrent GET
    requests settle in the order of their latencies, given by position in the list of
    requests (ties in issue order).
  \<^item> \<open>getFileMTime\<close>. Modelled from the spec: \<open>./util/get-file-mtime\<close> is not among the
    sources; \<open>lastModifiedTime(path) -> timestamp|null\<close>.
  \<^item> \<open>fetchPosts\<close>. Modelled from the spec: \<open>./get-tieba-post\<close> and
    \<open>./util/do-with-timeout\<close> are not among the sources; this is the outcome of
    \<open>doWithTimeout(getTiebaPost, maxTime, tiebaName, maxNumPost)\<close>, where a returned
    \<open>None\<close> is a null or undefined value.
  \<^item> \<open>imageEvents\<close>. Modelled from the spec: \<open>./util/do-with-timeout\<close> is not among
    the sources. These are the responses that reach the image pass before the
    deadline of \<open>doWithTimeout\<close>, in the order they arrive: \<open>(i, j)\<close> is the response to
    request \<open>j\<close> in flight of item \<open>i\<close>, counted from 0 in the order the requests were
    issued. The pass has timed out when they leave an item unsettled.
  \<^item> \<open>refreshCircle\<close>: \<open>$prefs.get('refresh-circle')\<close>, \<open>None\<close> when null or undefined.
  \<^item> \<open>nowAtCheck\<close>, \<open>nowAtFetch\<close>, \<open>nowAtPrepare\<close>: the clock at \<open>new Date()\<close> of the
    freshness check, at \<open>new Date()\<close> after the fetch, and at \<open>Date.now()\<close>, in
    milliseconds.
\<close>

record env =
  httpHead :: "jsstring \<Rightarrow> http_response"
  httpGet :: "jsstring \<Rightarrow> http_response"
  fileWrite :: "jsstring \<Rightarrow> data \<Rightarrow> bool"
  mkdir :: "jsstring \<Rightarrow> bool"
  latency :: "nat \<Rightarrow> nat"
  getFileMTime :: "jsstring \<Rightarrow> int option"
  fetchPosts :: "jsstring \<Rightarrow> int \<Rightarrow> int \<Rightarrow> item list option outcome"
  imageEvents :: "(nat \<times> nat) list"
  refreshCircle :: "int option"
  nowAtCheck :: int
  nowAtFetch :: int
  nowAtPrepare :: int

section \<open>\<open>selectImageBySize\<close>\<close>

text \<open>
  The test \<open>!error && len && len <= maxSize\<close>: \<open>len\<close> is falsy when it is absent or 0.
\<close>

definition sizeAccepted :: "http_response \<Rightarrow> int \<Rightarrow> bool" where
  "sizeAccepted r maxSize =
     (\<not> error r \<and>
      (case expectedContentLength r of
         None \<Rightarrow> False
       | Some len \<Rightarrow> len \<noteq> 0 \<and> len \<le> maxSize))"

text \<open>
  The loop \<open>for (i = 0; i < imgUrls.length && selected.length < maxNumImg; ++i)\<close>, on
  the locators not yet visited. It returns the selection and the locators probed, both
  in order.
\<close>

fun selectLoop ::
  "(jsstring \<Rightarrow> http_response) \<Rightarrow> int \<Rightarrow> int \<Rightarrow> jsstring list \<Rightarrow> jsstring list \<Rightarrow>
   jsstring list \<Rightarrow> jsstring list \<times> jsstring list" where
  "selectLoop probe maxSize maxNumImg selected probed [] = (selected, probed)"
| "selectLoop probe maxSize maxNumImg selected probed (url # rest) =
     (if int (length selected) < maxNumImg
      then selectLoop probe maxSize maxNumImg
             (if sizeAccepted (probe url) maxSize then selected @ [url] else selected)
             (probed @ [url]) rest
      else (selected, probed))"

definition selectImageBySize ::
  "(jsstring \<Rightarrow> http_response) \<Rightarrow> jsstring list \<Rightarrow> int \<Rightarrow> int \<Rightarrow>
   jsstring list \<times> jsstring list" where
  "selectImageBySize probe urls maxSize maxNumImg =
     selectLoop probe maxSize maxNumImg [] [] urls"

section \<open>\<open>downloadImage\<close>\<close>

text \<open>
  The count budget \<open>maxNumImg\<close>: \<open>!item.abstract\<close> holds for an absent abstract and
  for the empty string.
\<close>

definition maxNumImg :: "constants \<Rightarrow> item \<Rightarrow> int" where
  "maxNumImg k it =
     (case abstract it of
        None \<Rightarrow> 3
      | Some a \<Rightarrow>
          if a = [] then 3
          else if int (length a) < MAX_ABSTRACT_LEN_ALLOWING_TWO_IMAGES k then 2
          else 1)"

text \<open>
  The callback of \<open>shownImgUrls.filter\<close>, run over the selection from left to right
  with \<open>item.imgPaths\<close> as it grows: a locator whose path is recorded is dropped, one
  whose path exists on disk is dropped and its path recorded, the others are kept.
\<close>

fun filterDownloaded ::
  "filesystem \<Rightarrow> jsstring \<Rightarrow> jsstring list \<Rightarrow> jsstring list \<Rightarrow>
   jsstring list \<times> jsstring list" where
  "filterDownloaded fs dst [] paths = ([], paths)"
| "filterDownloaded fs dst (url # urls) paths =
     (let path = localPath dst url in
      if path \<in> set paths then filterDownloaded fs dst urls paths
      else if file_exists fs path then filterDownloaded fs dst urls (paths @ [path])
      else (case filterDownloaded fs dst urls paths of
              (kept, paths') \<Rightarrow> (url # kept, paths')))"

text \<open>
  The asynchronous callback of \<open>shownImgUrls.map\<close> once its GET has settled: it throws
  the response's error, throws on a status other than 200, writes the data, and on a
  successful write records the path and returns true; a failed write throws.
\<close>

datatype download_error = RequestError | BadStatus int | WriteFailed

definition fetchImage ::
  "env \<Rightarrow> jsstring \<Rightarrow> jsstring \<Rightarrow> filesystem \<Rightarrow> jsstring list \<Rightarrow>
   (download_error + bool) \<times> filesystem \<times> jsstring list" where
  "fetchImage e dst url fs paths =
     (let r = httpGet e url in
      if error r then (Inl RequestError, fs, paths)
      else if statusCode r \<noteq> 200 then (Inl (BadStatus (statusCode r)), fs, paths)
      else (let path = localPath dst url in
            if fileWrite e path (rawData r)
            then (Inr True, put_file fs path (rawData r), paths @ [path])
            else (Inl WriteFailed, fs, paths)))"

text \<open>
  The requests are issued together and their callbacks run one at a time, in the order
  the responses arrive.
\<close>

definition completionOrder :: "(nat \<Rightarrow> nat) \<Rightarrow> 'a list \<Rightarrow> 'a list" where
  "completionOrder lat xs = map snd (sort_key (\<lambda>p. lat (fst p)) (enumerate 0 xs))"

fun settleAll ::
  "env \<Rightarrow> jsstring \<Rightarrow> jsstring list \<Rightarrow> filesystem \<Rightarrow> jsstring list \<Rightarrow>
   (download_error + bool) list \<times> filesystem \<times> jsstring list" where
  "settleAll e dst [] fs paths = ([], fs, paths)"
| "settleAll e dst (url # urls) fs paths =
     (case fetchImage e dst url fs paths of
        (r, fs1, paths1) \<Rightarrow>
          (case settleAll e dst urls fs1 paths1 of
             (rs, fs2, paths2) \<Rightarrow> (r # rs, fs2, paths2)))"

text \<open>
  What a call of \<open>downloadImage\<close> leaves: the value returned, the item and the file
  system after it, the locators probed with HEAD, the selection (\<open>shownImgUrls\<close> as
  the selector returned it) and the locators requested with GET.
\<close>

record download_outcome =
  returned :: bool
  itemAfter :: item
  fsAfter :: filesystem
  probed :: "jsstring list"
  selected :: "jsstring list"
  requested :: "jsstring list"

text \<open>
  The debug branch only logs: it returns false on both of its paths.
\<close>

definition downloadImage ::
  "constants \<Rightarrow> env \<Rightarrow> jsstring \<Rightarrow> item \<Rightarrow> filesystem \<Rightarrow> download_outcome" where
  "downloadImage k e dst it fs =
     (if imgDownloaded it = Some True \<or> imgUrls it = []
      then \<lparr>returned = True, itemAfter = it, fsAfter = fs, probed = [], selected = [],
            requested = []\<rparr>
      else
        (case selectImageBySize (httpHead e) (imgUrls it) (MAX_IMAGE_SIZE k) (maxNumImg k it) of
           (shownImgUrls, heads) \<Rightarrow>
             if shownImgUrls = []
             then \<lparr>returned = True, itemAfter = it\<lparr>imgDownloaded := Some True\<rparr>,
                   fsAfter = fs, probed = heads, selected = [], requested = []\<rparr>
             else
               (let it1 = (if imgPaths it = None
                           then it\<lparr>imgDownloaded := Some False, imgPaths := Some []\<rparr>
                           else it)
                in case filterDownloaded fs dst shownImgUrls (the (imgPaths it1)) of
                     (todo, paths1) \<Rightarrow>
                       (case settleAll e dst (completionOrder (latency e) todo) fs paths1 of
                          (downloadResults, fs2, paths2) \<Rightarrow>
                            if list_all (\<lambda>v. v = Inr True) downloadResults
                            then \<lparr>returned = True,
                                  itemAfter = it1\<lparr>imgPaths := Some paths2,
                                                   imgDownloaded := Some True\<rparr>,
                                  fsAfter = fs2, probed = heads,
                                  selected = shownImgUrls, requested = todo\<rparr>
                            else \<lparr>returned = False,
                                  itemAfter = it1\<lparr>imgPaths := Some paths2\<rparr>,
                                  fsAfter = fs2, probed = heads,
                                  selected = shownImgUrls, requested = todo\<rparr>))))"

text \<open>A download succeeds when the GET has no error and status 200 and the write succeeds.\<close>

definition downloadSucceeds :: "env \<Rightarrow> jsstring \<Rightarrow> jsstring \<Rightarrow> bool" where
  "downloadSucceeds e dst url =
     (\<not> error (httpGet e url) \<and> statusCode (httpGet e url) = 200 \<and>
      fileWrite e (localPath dst url) (rawData (httpGet e url)))"

text \<open>The recorded paths of an item, none when the property is absent.\<close>

definition pathsOf :: "item \<Rightarrow> jsstring list" where
  "pathsOf it = (case imgPaths it of None \<Rightarrow> [] | Some ps \<Rightarrow> ps)"

section \<open>The image pass\<close>

text \<open>
  \<open>lastClearDate && Date.now() - lastClearDate > IMAGE_CLEAR_INTERVAL\<close>: a time of 0
  is falsy, as an absent one is. A failed \<open>mkdir\<close> throws, which the function catches
  and answers with false.
\<close>

definition prepareForImageDownload ::
  "constants \<Rightarrow> env \<Rightarrow> jsstring \<Rightarrow> filesystem \<Rightarrow> bool \<times> filesystem" where
  "prepareForImageDownload k e dst fs =
     (if \<not> file_exists fs (IMAGE_DOWNLOAD_DIR k) \<and> \<not> mkdir e (IMAGE_DOWNLOAD_DIR k)
      then (False, fs)
      else
        (let fs1 = (if file_exists fs (IMAGE_DOWNLOAD_DIR k) then fs
                    else make_dir fs (IMAGE_DOWNLOAD_DIR k));
             fs2 = (case getFileMTime e dst of
                      None \<Rightarrow> fs1
                    | Some lastClearDate \<Rightarrow>
                        if lastClearDate \<noteq> 0 \<and>
                           nowAtPrepare e - lastClearDate > IMAGE_CLEAR_INTERVAL k
                        then file_delete fs1 dst else fs1)
         in if \<not> file_exists fs2 dst \<and> \<not> mkdir e dst then (False, fs2)
            else (True, if file_exists fs2 dst then fs2 else make_dir fs2 dst)))"

text \<open>
  \<open>Promise.allSettled(items.map(downloadImage.bind(null, dst)))\<close> starts every call
  before any response has arrived, and the calls then advance one response at a time,
  in the order the responses arrive. Between two responses a call runs without
  interruption, and neither another response nor the timer of the deadline is handled
  before it waits again. So a call under way is in one of three states: it waits for
  the HEAD of one locator, with the selection made so far and the locators not yet
  visited; or it waits for its GET requests in flight, with the results of those that
  have settled; or it has returned.
\<close>

datatype task =
    Probing "jsstring list" jsstring "jsstring list"
  | Downloading "jsstring list" "(download_error + bool) list"
  | Settled bool

type_synonym worker = "item \<times> task"

text \<open>
  Lines 110 to 136, once every download of the item has settled: the flag is set when
  all were fulfilled with true.
\<close>

definition finishDownloads :: "item \<Rightarrow> (download_error + bool) list \<Rightarrow> worker" where
  "finishDownloads it downloadResults =
     (if list_all (\<lambda>v. v = Inr True) downloadResults
      then (it\<lparr>imgDownloaded := Some True\<rparr>, Settled True)
      else (it, Settled False))"

text \<open>
  Lines 55 to 80, once the selection is made: nothing selected is a success; else
  \<open>imgPaths\<close> is created where absent, the filter runs on the file system as it is
  now, and the GET requests are issued together. With nothing left to download
  \<open>Promise.allSettled([])\<close> is fulfilled at once.
\<close>

definition startDownloads :: "jsstring \<Rightarrow> filesystem \<Rightarrow> item \<Rightarrow> jsstring list \<Rightarrow> worker" where
  "startDownloads dst fs it shownImgUrls =
     (if shownImgUrls = [] then (it\<lparr>imgDownloaded := Some True\<rparr>, Settled True)
      else
        (let it1 = (if imgPaths it = None
                    then it\<lparr>imgDownloaded := Some False, imgPaths := Some []\<rparr>
                    else it)
         in case filterDownloaded fs dst shownImgUrls (the (imgPaths it1)) of
              (todo, paths1) \<Rightarrow>
                if todo = [] then finishDownloads (it1\<lparr>imgPaths := Some paths1\<rparr>) []
                else (it1\<lparr>imgPaths := Some paths1\<rparr>, Downloading todo [])))"

text \<open>
  The head of the loop of \<open>selectImageBySize\<close>, with the selection so far \<open>sel\<close>
  (the array \<open>selected\<close>) and the locators not yet visited: it issues the next HEAD,
  or the selection is made.
\<close>

definition probeNext ::
  "constants \<Rightarrow> jsstring \<Rightarrow> filesystem \<Rightarrow> item \<Rightarrow> jsstring list \<Rightarrow> jsstring list \<Rightarrow> worker" where
  "probeNext k dst fs it sel rest =
     (case rest of
        [] \<Rightarrow> startDownloads dst fs it sel
      | url # rest' \<Rightarrow>
          if int (length sel) < maxNumImg k it then (it, Probing sel url rest')
          else startDownloads dst fs it sel)"

text \<open>The call of \<open>downloadImage\<close> up to its first wait.\<close>

definition startItem :: "constants \<Rightarrow> jsstring \<Rightarrow> filesystem \<Rightarrow> item \<Rightarrow> worker" where
  "startItem k dst fs it =
     (if imgDownloaded it = Some True \<or> imgUrls it = [] then (it, Settled True)
      else probeNext k dst fs it [] (imgUrls it))"

text \<open>
  The response to request \<open>j\<close> in flight of a call arrives. A call that waits for a
  HEAD has one request in flight, request 0: the locator is selected when its size is
  accepted, and the loop goes on. A call that waits for its downloads runs the callback
  of the request on the file system as it is now; when it was the last in flight the
  call finishes. A response to no request in flight changes nothing.
\<close>

fun responseArrives ::
  "constants \<Rightarrow> env \<Rightarrow> jsstring \<Rightarrow> nat \<Rightarrow> worker \<Rightarrow> filesystem \<Rightarrow> worker \<times> filesystem" where
  "responseArrives k e dst j (it, Probing sel url rest) fs =
     (if j = 0
      then (probeNext k dst fs it
              (if sizeAccepted (httpHead e url) (MAX_IMAGE_SIZE k) then sel @ [url]
               else sel) rest, fs)
      else ((it, Probing sel url rest), fs))"
| "responseArrives k e dst j (it, Downloading pending results) fs =
     (if j < length pending
      then
        (case fetchImage e dst (pending ! j) fs (pathsOf it) of
           (r, fs', paths') \<Rightarrow>
             (if take j pending @ drop (Suc j) pending = []
              then finishDownloads (it\<lparr>imgPaths := Some paths'\<rparr>) (results @ [r])
              else (it\<lparr>imgPaths := Some paths'\<rparr>,
                    Downloading (take j pending @ drop (Suc j) pending) (results @ [r])),
              fs'))
      else ((it, Downloading pending results), fs))"
| "responseArrives k e dst j (it, Settled v) fs = ((it, Settled v), fs)"

text \<open>The responses one after the other, each for the call it belongs to.\<close>

fun runEvents ::
  "constants \<Rightarrow> env \<Rightarrow> jsstring \<Rightarrow> (nat \<times> nat) list \<Rightarrow> worker list \<Rightarrow> filesystem \<Rightarrow>
   worker list \<times> filesystem" where
  "runEvents k e dst [] ws fs = (ws, fs)"
| "runEvents k e dst ((i, j) # evs) ws fs =
     (if i < length ws
      then (case responseArrives k e dst j (ws ! i) fs of
              (w, fs') \<Rightarrow> runEvents k e dst evs (ws[i := w]) fs')
      else runEvents k e dst evs ws fs)"

definition hasSettled :: "worker \<Rightarrow> bool" where
  "hasSettled w = (case snd w of Settled v \<Rightarrow> True | _ \<Rightarrow> False)"

text \<open>
  It returns the flag, the items as they are when the function returns, and the file
  system. When the preparation fails no call is made. When every call has returned
  the flag tells whether all returned true. When the deadline comes first the function
  answers false, and the items are as the responses handled so far have left them,
  those of calls under way included.
\<close>

definition tryDownloadAllImageWithTimeout ::
  "constants \<Rightarrow> env \<Rightarrow> jsstring \<Rightarrow> item list \<Rightarrow> bool \<Rightarrow> filesystem \<Rightarrow>
   bool \<times> item list \<times> filesystem" where
  "tryDownloadAllImageWithTimeout k e dst its partialDownloaded fs =
     (case (if partialDownloaded then (True, fs) else prepareForImageDownload k e dst fs) of
        (False, fs1) \<Rightarrow> (False, its, fs1)
      | (True, fs1) \<Rightarrow>
          (case runEvents k e dst (imageEvents e) (map (startItem k dst fs1) its) fs1 of
             (ws, fs') \<Rightarrow>
               (if list_all hasSettled ws then list_all (\<lambda>w. snd w = Settled True) ws
                else False,
                map fst ws, fs')))"

section \<open>\<open>getEntry\<close>\<close>

text \<open>
  The value under a key of \<open>$cache\<close>. An absent \<open>items\<close> or \<open>date\<close> is \<open>None\<close>; an
  array, also an empty one, and a \<open>Date\<close> are truthy. \<open>date\<close> is in milliseconds. An
  absent \<open>imgAllDownloaded\<close> is falsy, as \<open>False\<close> is.
\<close>

record cache_record =
  items :: "item list option"
  date :: "int option"
  imgAllDownloaded :: bool

type_synonym cache = "jsstring \<Rightarrow> cache_record option"

text \<open>A thrown error and a timeout are caught and answered with null.\<close>

definition tryGetTiebaPostWithTimeout ::
  "env \<Rightarrow> jsstring \<Rightarrow> int \<Rightarrow> int \<Rightarrow> item list option" where
  "tryGetTiebaPostWithTimeout e tiebaName maxTime maxNumPost =
     (case fetchPosts e tiebaName maxTime maxNumPost of
        Returns v \<Rightarrow> v
      | Throws \<Rightarrow> None
      | TimesOut \<Rightarrow> None)"

text \<open>\<open>$prefs.get('refresh-circle') ?? DEFAULT_REFRESH_CIRCLE\<close>, in minutes.\<close>

definition refreshInterval :: "constants \<Rightarrow> env \<Rightarrow> int" where
  "refreshInterval k e =
     (case refreshCircle e of None \<Rightarrow> DEFAULT_REFRESH_CIRCLE k | Some c \<Rightarrow> c)"

definition isCacheValid :: "constants \<Rightarrow> env \<Rightarrow> cache_record option \<Rightarrow> int \<Rightarrow> bool" where
  "isCacheValid k e cached nowDate =
     (case cached of
        None \<Rightarrow> False
      | Some c \<Rightarrow>
          (case items c of
             None \<Rightarrow> False
           | Some _ \<Rightarrow>
               (case date c of
                  None \<Rightarrow> False
                | Some d \<Rightarrow> nowDate - d < refreshInterval k e * 60000)))"

text \<open>
  What a call of \<open>getEntry\<close> leaves: the \<open>info\<close> and \<open>date\<close> of the object returned
  (\<open>entryDate\<close> is its \<open>date\<close>), the cache and the file system after it, whether the
  remote client was called, and the records given to \<open>$cache.setAsync\<close>, in order.
\<close>

record entry_outcome =
  info :: "item list option"
  entryDate :: "int option"
  cacheAfter :: cache
  fsOut :: filesystem
  remoteCalled :: bool
  cacheWrites :: "(jsstring \<times> cache_record) list"

text \<open>
  \<open>!tiebaName\<close> holds for the empty name. In the branch of the fresh cache
  \<open>isCacheValid\<close> has found the record, its items and its date, which \<open>the\<close> reads.
  \<open>$cache.setAsync\<close> is not awaited; the store is updated at the call, with the
  items as they are then.
\<close>

definition getEntry ::
  "constants \<Rightarrow> env \<Rightarrow> jsstring \<Rightarrow> bool \<Rightarrow> cache \<Rightarrow> filesystem \<Rightarrow> entry_outcome" where
  "getEntry k e tiebaName forceLoad store fs =
     (if tiebaName = []
      then \<lparr>info = None, entryDate = None, cacheAfter = store, fsOut = fs,
            remoteCalled = False, cacheWrites = []\<rparr>
      else
        (let cached = store tiebaName;
             dst = IMAGE_DOWNLOAD_DIR k @ [slash] @ tiebaName
         in if \<not> forceLoad \<and> isCacheValid k e cached (nowAtCheck e)
            then
              (let c = the cached; its = the (items c) in
               if \<not> imgAllDownloaded c
               then
                 (case tryDownloadAllImageWithTimeout k e dst its True fs of
                    (flag, its', fs') \<Rightarrow>
                      (let v = \<lparr>items = Some its', date = date c, imgAllDownloaded = flag\<rparr>
                       in \<lparr>info = Some its', entryDate = date c,
                           cacheAfter = store(tiebaName \<mapsto> v), fsOut = fs',
                           remoteCalled = False, cacheWrites = [(tiebaName, v)]\<rparr>))
               else \<lparr>info = Some its, entryDate = date c, cacheAfter = store, fsOut = fs,
                     remoteCalled = False, cacheWrites = []\<rparr>)
            else
              (case tryGetTiebaPostWithTimeout e tiebaName (POST_INFO_TIMEOUT k)
                      (MAX_NUMBER_OF_POST k) of
                 Some its \<Rightarrow>
                   (case tryDownloadAllImageWithTimeout k e dst its False fs of
                      (flag, its', fs') \<Rightarrow>
                        (let v = \<lparr>items = Some its', date = Some (nowAtFetch e),
                                  imgAllDownloaded = flag\<rparr>
                         in \<lparr>info = Some its', entryDate = Some (nowAtFetch e),
                             cacheAfter = store(tiebaName \<mapsto> v), fsOut = fs',
                             remoteCalled = True, cacheWrites = [(tiebaName, v)]\<rparr>))
               | None \<Rightarrow>
                   (case cached of
                      None \<Rightarrow>
                        \<lparr>info = None, entryDate = None, cacheAfter = store, fsOut = fs,
                         remoteCalled = True, cacheWrites = []\<rparr>
                    | Some c \<Rightarrow>
                        if items c \<noteq> None \<and> date c \<noteq> None
                        then \<lparr>info = items c, entryDate = date c, cacheAfter = store,
                              fsOut = fs, remoteCalled = True, cacheWrites = []\<rparr>
                        else \<lparr>info = None, entryDate = None, cacheAfter = store,
                              fsOut = fs, remoteCalled = True, cacheWrites = []\<rparr>))))"


section \<open>Names for the steps of \<open>downloadImage\<close>\<close>

text \<open>
  The early return, the value of the selector's call, and the two results of the
  filter: the locators left to download and the paths recorded when the filter is done.
\<close>

definition shortCircuits :: "item \<Rightarrow> bool" where
  "shortCircuits it = (imgDownloaded it = Some True \<or> imgUrls it = [])"

definition selectionOf :: "constants \<Rightarrow> env \<Rightarrow> item \<Rightarrow> jsstring list \<times> jsstring list" where
  "selectionOf k e it =
     selectImageBySize (httpHead e) (imgUrls it) (MAX_IMAGE_SIZE k) (maxNumImg k it)"

definition todoOf :: "constants \<Rightarrow> env \<Rightarrow> jsstring \<Rightarrow> item \<Rightarrow> filesystem \<Rightarrow> jsstring list" where
  "todoOf k e dst it fs = fst (filterDownloaded fs dst (fst (selectionOf k e it)) (pathsOf it))"

definition repairedOf :: "constants \<Rightarrow> env \<Rightarrow> jsstring \<Rightarrow> item \<Rightarrow> filesystem \<Rightarrow> jsstring list" where
  "repairedOf k e dst it fs = snd (filterDownloaded fs dst (fst (selectionOf k e it)) (pathsOf it))"

section \<open>Names for the states of the image pass\<close>

text \<open>
  What holds of every call of the pass at every moment: a call that has returned has
  returned whether its item is done (its flag is true or it has no locators), and the
  item of a call under way is not done.
\<close>

definition consistent :: "worker \<Rightarrow> bool" where
  "consistent w =
     (case snd w of
        Settled v \<Rightarrow> v = shortCircuits (fst w)
      | Probing sel url rest \<Rightarrow> \<not> shortCircuits (fst w)
      | Downloading pending results \<Rightarrow> \<not> shortCircuits (fst w))"


section \<open>Concrete data for the examples\<close>

text \<open>ASCII text as a JavaScript string.\<close>

definition ascii :: "string \<Rightarrow> jsstring" where
  "ascii s = map of_char s"

text \<open>A HEAD oracle from a table of content lengths; a locator not in the table errors.\<close>

definition sizedProbe :: "(jsstring \<times> int) list \<Rightarrow> jsstring \<Rightarrow> http_response" where
  "sizedProbe tab url =
     (case map_of tab url of
        None \<Rightarrow> \<lparr>statusCode = 404, error = True, expectedContentLength = None, rawData = []\<rparr>
      | Some len \<Rightarrow>
          \<lparr>statusCode = 200, error = False, expectedContentLength = Some len, rawData = []\<rparr>)"


text \<open>
  Constants, an empty file system and an environment for the examples: HEAD answers
  from a table of lengths, GET succeeds with status 200 on the listed locators and
  answers 404 on the others, writes and \<open>mkdir\<close> succeed, the remote client throws,
  and four responses for the first item arrive before the deadline of the image pass.
\<close>

definition exConstants :: constants where
  "exConstants =
     \<lparr>POST_INFO_TIMEOUT = 5000, IMAGE_TIMEOUT = 10000, IMAGE_DOWNLOAD_DIR = ascii ''img'',
      MAX_NUMBER_OF_POST = 10, DEFAULT_REFRESH_CIRCLE = 30, MAX_IMAGE_SIZE = 1000000,
      IMAGE_CLEAR_INTERVAL = 86400000, MAX_ABSTRACT_LEN_ALLOWING_TWO_IMAGES = 10\<rparr>"

definition emptyFs :: filesystem where
  "emptyFs = \<lparr>files = (\<lambda>p. None), dirs = (\<lambda>p. False)\<rparr>"

definition exGet :: "jsstring list \<Rightarrow> jsstring \<Rightarrow> http_response" where
  "exGet good url =
     (if url \<in> set good
      then \<lparr>statusCode = 200, error = False, expectedContentLength = None, rawData = [1]\<rparr>
      else \<lparr>statusCode = 404, error = False, expectedContentLength = None, rawData = []\<rparr>)"

definition exEnv :: "(jsstring \<times> int) list \<Rightarrow> jsstring list \<Rightarrow> env" where
  "exEnv sizes good =
     \<lparr>httpHead = sizedProbe sizes, httpGet = exGet good,
      fileWrite = (\<lambda>p d. True), mkdir = (\<lambda>p. True), latency = (\<lambda>i. 0),
      getFileMTime = (\<lambda>p. None), fetchPosts = (\<lambda>name maxTime maxNumPost. Throws),
      imageEvents = [(0, 0), (0, 0), (0, 0), (0, 0)], refreshCircle = None,
      nowAtCheck = 0, nowAtFetch = 0, nowAtPrepare = 0\<rparr>"

text \<open>A post with the given abstract and locators, not yet touched by \<open>downloadImage\<close>.\<close>

definition freshItem :: "jsstring option \<Rightarrow> jsstring list \<Rightarrow> item" where
  "freshItem a urls = \<lparr>abstract = a, imgUrls = urls, imgDownloaded = None, imgPaths = None\<rparr>"

text \<open>
  A post met before: \<open>old.jpg\<close> is recorded, \<open>b.jpg\<close> is on disk and not recorded,
  \<open>c.jpg\<close> is still to be downloaded.
\<close>

definition partialItem :: item where
  "partialItem =
     \<lparr>abstract = None,
      imgUrls = [ascii ''http://h/old.jpg'', ascii ''http://h/b.jpg'', ascii ''http://h/c.jpg''],
      imgDownloaded = Some False, imgPaths = Some [ascii ''img/t/old.jpg'']\<rparr>"

definition partialFs :: filesystem where
  "partialFs = put_file (put_file emptyFs (ascii ''img/t/old.jpg'') [1]) (ascii ''img/t/b.jpg'') [1]"

definition threeSizes :: "(jsstring \<times> int) list" where
  "threeSizes =
     [(ascii ''http://h/old.jpg'', 1000), (ascii ''http://h/b.jpg'', 1000),
      (ascii ''http://h/c.jpg'', 1000)]"

text \<open>Three images of 1000 bytes each, and the posts that show them.\<close>

definition img1 :: jsstring where "img1 = ascii ''http://h/img1''"
definition img2 :: jsstring where "img2 = ascii ''http://h/img2''"
definition img3 :: jsstring where "img3 = ascii ''http://h/img3''"

definition imgSizes :: "(jsstring \<times> int) list" where
  "imgSizes = [(img1, 1000), (img2, 1000), (img3, 1000)]"

text \<open>
  A source name, a post without images, cache stores with no record and with one
  record under the name, and environments whose clock at the freshness check and whose
  remote client are given; their network is the one of the three images, where
  \<open>img2\<close> cannot be downloaded.
\<close>

definition tieba :: jsstring where "tieba = ascii ''cats''"

definition postX :: item where "postX = freshItem (Some (ascii ''hello'')) []"

definition emptyStore :: cache where "emptyStore = (\<lambda>name. None)"

definition storeWith :: "cache_record \<Rightarrow> cache" where
  "storeWith c = (\<lambda>name. if name = tieba then Some c else None)"

definition envAt :: "int \<Rightarrow> item list option outcome \<Rightarrow> env" where
  "envAt t remote = (exEnv imgSizes [img1, img3])\<lparr>nowAtCheck := t, fetchPosts := (\<lambda>name maxTime maxNumPost. remote)\<rparr>"

text \<open>
  Records captured at time 0: one with the post, one with an empty list of posts, and
  one that has lost its date.
\<close>

definition recordX :: cache_record where
  "recordX = \<lparr>items = Some [postX], date = Some 0, imgAllDownloaded = True\<rparr>"

definition recordEmpty :: cache_record where
  "recordEmpty = \<lparr>items = Some [], date = Some 0, imgAllDownloaded = True\<rparr>"

definition recordUndated :: cache_record where
  "recordUndated = \<lparr>items = Some [postX], date = None, imgAllDownloaded = True\<rparr>"

section \<open>The claims' readings\<close>

text \<open>
  Following the words of the specification: a probe qualifies when it succeeds and
  reports a known length that is at most the size budget, and the selection is the
  earliest qualifying locators up to the count budget.
\<close>

definition knownLengthWithin :: "http_response \<Rightarrow> int \<Rightarrow> bool" where
  "knownLengthWithin r maxSize =
     (\<not> error r \<and>
      (case expectedContentLength r of None \<Rightarrow> False | Some len \<Rightarrow> len \<le> maxSize))"

definition claimedSelection ::
  "(jsstring \<Rightarrow> http_response) \<Rightarrow> jsstring list \<Rightarrow> int \<Rightarrow> int \<Rightarrow> jsstring list" where
  "claimedSelection probe urls maxSize n =
     take (nat n) (filter (\<lambda>u. knownLengthWithin (probe u) maxSize) urls)"


text \<open>
  Following the words of the specification, with the abstract an optional string: 3
  when the item has no abstract, 2 when its abstract is shorter than the threshold, 1
  otherwise.
\<close>

definition claimedMaxNumImg :: "constants \<Rightarrow> item \<Rightarrow> int" where
  "claimedMaxNumImg k it =
     (case abstract it of
        None \<Rightarrow> 3
      | Some a \<Rightarrow> if int (length a) < MAX_ABSTRACT_LEN_ALLOWING_TWO_IMAGES k then 2 else 1)"

text \<open>
  Following the words of the specification: the cache is fresh when a record exists,
  has non-empty items, has a capture time, and the time elapsed since then is less
  than the refresh interval.
\<close>

definition claimedFresh :: "constants \<Rightarrow> env \<Rightarrow> cache_record option \<Rightarrow> int \<Rightarrow> bool" where
  "claimedFresh k e cached nowDate =
     (case cached of
        None \<Rightarrow> False
      | Some c \<Rightarrow>
          (case items c of
             None \<Rightarrow> False
           | Some its \<Rightarrow>
               its \<noteq> [] \<and>
               (case date c of
                  None \<Rightarrow> False
                | Some d \<Rightarrow> nowDate - d < refreshInterval k e * 60000)))"


section \<open>Properties of the selection\<close>

lemma take_nat_Cons:
  "0 < (k::int) \<Longrightarrow> take (nat k) (x # xs) = x # take (nat (k - 1)) xs"
proof -
  assume "0 < k"
  then have "nat k = Suc (nat (k - 1))" by arith
  then show ?thesis by simp
qed

lemma selectLoop_selected:
  "fst (selectLoop probe m n sel pr urls) =
     sel @ take (nat (n - int (length sel))) (filter (\<lambda>u. sizeAccepted (probe u) m) urls)"
proof (induction urls arbitrary: sel pr)
  case Nil
  then show ?case by simp
next
  case (Cons u urls)
  show ?case
  proof (cases "int (length sel) < n")
    case True
    then have pos: "0 < n - int (length sel)" by simp
    show ?thesis
    proof (cases "sizeAccepted (probe u) m")
      case acc: True
      have eq: "nat (n - (1 + int (length sel))) = nat (n - int (length sel) - 1)" by arith
      from True acc show ?thesis
        by (simp add: Cons.IH take_nat_Cons[OF pos] eq)
    next
      case False
      with True show ?thesis by (simp add: Cons.IH)
    qed
  next
    case False
    then show ?thesis by simp
  qed
qed


lemma selectLoop_probed:
  "\<exists>ys. snd (selectLoop probe m n sel pr urls) = pr @ ys \<and> prefix ys urls \<and>
     fst (selectLoop probe m n sel pr urls) = sel @ filter (\<lambda>u. sizeAccepted (probe u) m) ys \<and>
     (int (length (fst (selectLoop probe m n sel pr urls))) < n \<longrightarrow> ys = urls)"
proof (induction urls arbitrary: sel pr)
  case Nil
  then show ?case by simp
next
  case (Cons u urls)
  show ?case
  proof (cases "int (length sel) < n")
    case True
    define sel' where "sel' = (if sizeAccepted (probe u) m then sel @ [u] else sel)"
    have step: "selectLoop probe m n sel pr (u # urls) = selectLoop probe m n sel' (pr @ [u]) urls"
      using True by (simp add: sel'_def)
    from Cons.IH[of sel' "pr @ [u]"] obtain ys where
      ys: "snd (selectLoop probe m n sel' (pr @ [u]) urls) = (pr @ [u]) @ ys" "prefix ys urls"
          "fst (selectLoop probe m n sel' (pr @ [u]) urls) = sel' @ filter (\<lambda>u. sizeAccepted (probe u) m) ys"
          "int (length (fst (selectLoop probe m n sel' (pr @ [u]) urls))) < n \<longrightarrow> ys = urls"
      by blast
    have "snd (selectLoop probe m n sel pr (u # urls)) = pr @ (u # ys)"
      using ys(1) by (simp only: step) simp
    moreover have "prefix (u # ys) (u # urls)" using ys(2) by simp
    moreover have "fst (selectLoop probe m n sel pr (u # urls)) =
        sel @ filter (\<lambda>u. sizeAccepted (probe u) m) (u # ys)"
      using ys(3) by (simp only: step) (simp add: sel'_def)
    moreover have "int (length (fst (selectLoop probe m n sel pr (u # urls)))) < n \<longrightarrow> u # ys = u # urls"
      using ys(4) by (simp only: step) simp
    ultimately show ?thesis by blast
  next
    case False
    then have "selectLoop probe m n sel pr (u # urls) = (sel, pr)" by simp
    with False show ?thesis by (intro exI[of _ "[]"]) simp
  qed
qed


lemma selectLoop_budget:
  "\<exists>ys. snd (selectLoop probe m n sel pr urls) = pr @ ys \<and>
     (\<forall>i<length ys.
        int (length sel + length (filter (\<lambda>u. sizeAccepted (probe u) m) (take i ys))) < n)"
proof (induction urls arbitrary: sel pr)
  case Nil
  then show ?case by simp
next
  case (Cons u urls)
  show ?case
  proof (cases "int (length sel) < n")
    case True
    define sel' where "sel' = (if sizeAccepted (probe u) m then sel @ [u] else sel)"
    have step: "selectLoop probe m n sel pr (u # urls) = selectLoop probe m n sel' (pr @ [u]) urls"
      using True by (simp add: sel'_def)
    from Cons.IH[of sel' "pr @ [u]"] obtain ys where
      ys: "snd (selectLoop probe m n sel' (pr @ [u]) urls) = (pr @ [u]) @ ys"
          "\<forall>i<length ys.
             int (length sel' + length (filter (\<lambda>u. sizeAccepted (probe u) m) (take i ys))) < n"
      by blast
    have a: "snd (selectLoop probe m n sel pr (u # urls)) = pr @ (u # ys)"
      using ys(1) by (simp only: step) simp
    have b: "int (length sel + length (filter (\<lambda>u. sizeAccepted (probe u) m) (take i (u # ys)))) < n"
      if "i < length (u # ys)" for i
    proof (cases i)
      case 0
      with True show ?thesis by simp
    next
      case (Suc j)
      with that have "j < length ys" by simp
      with ys(2) have "int (length sel' + length (filter (\<lambda>u. sizeAccepted (probe u) m) (take j ys))) < n"
        by blast
      with Suc show ?thesis by (simp add: sel'_def split: if_splits)
    qed
    from a b show ?thesis by blast
  next
    case False
    then have "selectLoop probe m n sel pr (u # urls) = (sel, pr)" by simp
    then show ?thesis by (intro exI[of _ "[]"]) simp
  qed
qed



section \<open>Properties of the filter and of the downloads\<close>

lemma filterDownloaded_fst_Cons:
  "fst (filterDownloaded fs dst (u # urls) paths) =
     (if localPath dst u \<in> set paths then fst (filterDownloaded fs dst urls paths)
      else if file_exists fs (localPath dst u)
      then fst (filterDownloaded fs dst urls (paths @ [localPath dst u]))
      else u # fst (filterDownloaded fs dst urls paths))"
  by (simp add: Let_def split: prod.splits)

lemma filterDownloaded_snd_Cons:
  "snd (filterDownloaded fs dst (u # urls) paths) =
     (if localPath dst u \<in> set paths then snd (filterDownloaded fs dst urls paths)
      else if file_exists fs (localPath dst u)
      then snd (filterDownloaded fs dst urls (paths @ [localPath dst u]))
      else snd (filterDownloaded fs dst urls paths))"
  by (simp add: Let_def split: prod.splits)

lemma filterDownloaded_paths:
  "\<exists>added. snd (filterDownloaded fs dst urls paths) = paths @ added \<and>
     set added \<subseteq> {p \<in> localPath dst ` set urls. file_exists fs p}"
proof (induction urls arbitrary: paths)
  case Nil
  then show ?case by simp
next
  case (Cons u urls)
  show ?case
  proof (cases "localPath dst u \<notin> set paths \<and> file_exists fs (localPath dst u)")
    case True
    from Cons.IH[of "paths @ [localPath dst u]"] obtain added where
      "snd (filterDownloaded fs dst urls (paths @ [localPath dst u])) =
         (paths @ [localPath dst u]) @ added"
      "set added \<subseteq> {p \<in> localPath dst ` set urls. file_exists fs p}" by blast
    with True show ?thesis
      by (intro exI[of _ "localPath dst u # added"])
         (auto simp: filterDownloaded_snd_Cons simp del: filterDownloaded.simps)
  next
    case False
    from Cons.IH[of paths] obtain added where
      "snd (filterDownloaded fs dst urls paths) = paths @ added"
      "set added \<subseteq> {p \<in> localPath dst ` set urls. file_exists fs p}" by blast
    with False show ?thesis
      by (intro exI[of _ added])
         (auto simp: filterDownloaded_snd_Cons simp del: filterDownloaded.simps)
  qed
qed

lemma filterDownloaded_mono:
  "set paths \<subseteq> set (snd (filterDownloaded fs dst urls paths))"
  using filterDownloaded_paths[of fs dst urls paths] by auto

lemma filterDownloaded_kept:
  "u \<in> set (fst (filterDownloaded fs dst urls paths)) \<Longrightarrow>
     u \<in> set urls \<and> localPath dst u \<notin> set paths \<and> \<not> file_exists fs (localPath dst u)"
proof (induction urls arbitrary: paths)
  case Nil
  then show ?case by simp
next
  case (Cons v urls)
  show ?case
  proof (cases "localPath dst v \<in> set paths")
    case True
    with Cons.prems have "u \<in> set (fst (filterDownloaded fs dst urls paths))"
      by (simp add: filterDownloaded_fst_Cons del: filterDownloaded.simps(2))
    from Cons.IH[OF this] show ?thesis by simp
  next
    case notin: False
    show ?thesis
    proof (cases "file_exists fs (localPath dst v)")
      case True
      with notin Cons.prems
      have "u \<in> set (fst (filterDownloaded fs dst urls (paths @ [localPath dst v])))"
        by (simp add: filterDownloaded_fst_Cons del: filterDownloaded.simps(2))
      from Cons.IH[OF this] show ?thesis by simp
    next
      case False
      with notin Cons.prems
      have "u = v \<or> u \<in> set (fst (filterDownloaded fs dst urls paths))"
        by (simp add: filterDownloaded_fst_Cons del: filterDownloaded.simps(2))
      then show ?thesis
      proof
        assume "u = v"
        with notin False show ?thesis by simp
      next
        assume "u \<in> set (fst (filterDownloaded fs dst urls paths))"
        from Cons.IH[OF this] show ?thesis by simp
      qed
    qed
  qed
qed

lemma filterDownloaded_dropped:
  "u \<in> set urls \<Longrightarrow> u \<notin> set (fst (filterDownloaded fs dst urls paths)) \<Longrightarrow>
     localPath dst u \<in> set (snd (filterDownloaded fs dst urls paths))"
proof (induction urls arbitrary: paths)
  case Nil
  then show ?case by simp
next
  case (Cons v urls)
  show ?case
  proof (cases "u = v")
    case True
    show ?thesis
    proof (cases "localPath dst v \<in> set paths")
      case inp: True
      with True filterDownloaded_mono[of paths fs dst urls] show ?thesis
        by (auto simp: filterDownloaded_snd_Cons simp del: filterDownloaded.simps(2))
    next
      case notin: False
      show ?thesis
      proof (cases "file_exists fs (localPath dst v)")
        case ex: True
        with True notin filterDownloaded_mono[of "paths @ [localPath dst v]" fs dst urls]
        show ?thesis
          by (auto simp: filterDownloaded_snd_Cons simp del: filterDownloaded.simps(2))
      next
        case False
        with True notin Cons.prems show ?thesis
          by (auto simp: filterDownloaded_fst_Cons simp del: filterDownloaded.simps(2))
      qed
    qed
  next
    case False
    with Cons show ?thesis
      by (auto simp: filterDownloaded_fst_Cons filterDownloaded_snd_Cons
               simp del: filterDownloaded.simps(2) split: if_splits)
  qed
qed

lemma filterDownloaded_no_repair:
  "(\<And>u. u \<in> set urls \<Longrightarrow> localPath dst u \<in> set paths \<or> \<not> file_exists fs (localPath dst u)) \<Longrightarrow>
     snd (filterDownloaded fs dst urls paths) = paths"
  by (induction urls arbitrary: paths)
     (auto simp: filterDownloaded_snd_Cons simp del: filterDownloaded.simps(2))

text \<open>The downloads: what is recorded, what is written and what is returned.\<close>

lemma fetchImage_cases:
  "fetchImage e dst url fs paths =
     (if downloadSucceeds e dst url
      then (Inr True, put_file fs (localPath dst url) (rawData (httpGet e url)),
            paths @ [localPath dst url])
      else (if error (httpGet e url) then Inl RequestError
            else if statusCode (httpGet e url) \<noteq> 200 then Inl (BadStatus (statusCode (httpGet e url)))
            else Inl WriteFailed, fs, paths))"
  by (simp add: fetchImage_def downloadSucceeds_def Let_def)

lemma settleAll_Cons:
  "settleAll e dst (u # urls) fs paths =
     (if downloadSucceeds e dst u
      then (Inr True #
              fst (settleAll e dst urls
                     (put_file fs (localPath dst u) (rawData (httpGet e u)))
                     (paths @ [localPath dst u])),
            snd (settleAll e dst urls
                   (put_file fs (localPath dst u) (rawData (httpGet e u)))
                   (paths @ [localPath dst u])))
      else (fst (fetchImage e dst u fs paths) # fst (settleAll e dst urls fs paths),
            snd (settleAll e dst urls fs paths)))"
  by (simp add: fetchImage_cases split: prod.splits)

lemma fetchImage_failed:
  "\<not> downloadSucceeds e dst u \<Longrightarrow> fst (fetchImage e dst u fs paths) \<noteq> Inr True"
  by (simp add: fetchImage_cases)

lemma settleAll_paths:
  "snd (snd (settleAll e dst urls fs paths)) =
     paths @ map (localPath dst) (filter (downloadSucceeds e dst) urls)"
  by (induction urls arbitrary: fs paths)
     (auto simp: settleAll_Cons fetchImage_failed simp del: settleAll.simps(2))

lemma settleAll_results:
  "list_all (\<lambda>v. v = Inr True) (fst (settleAll e dst urls fs paths)) =
     (\<forall>u\<in>set urls. downloadSucceeds e dst u)"
  by (induction urls arbitrary: fs paths)
     (auto simp: settleAll_Cons fetchImage_failed simp del: settleAll.simps(2))

lemma settleAll_exists:
  "file_exists (fst (snd (settleAll e dst urls fs paths))) p =
     (file_exists fs p \<or> p \<in> localPath dst ` {u \<in> set urls. downloadSucceeds e dst u})"
  by (induction urls arbitrary: fs paths)
     (auto simp: settleAll_Cons file_exists_def put_file_def simp del: settleAll.simps(2))

lemma settleAll_dirs:
  "dirs (fst (snd (settleAll e dst urls fs paths))) = dirs fs"
  by (induction urls arbitrary: fs paths)
     (auto simp: settleAll_Cons put_file_def simp del: settleAll.simps(2))

lemma mset_completionOrder: "mset (completionOrder lat xs) = mset xs"
proof -
  have "mset (completionOrder lat xs) = image_mset snd (mset (enumerate 0 xs))"
    by (simp add: completionOrder_def)
  also have "\<dots> = mset (map snd (enumerate 0 xs))" by (simp only: mset_map)
  also have "\<dots> = mset xs" by (simp only: map_snd_enumerate)
  finally show ?thesis .
qed

lemma set_completionOrder: "set (completionOrder lat xs) = set xs"
  using mset_completionOrder[of lat xs] by (metis set_mset_mset)



section \<open>The cases of \<open>downloadImage\<close>\<close>

lemma downloadImage_short:
  "shortCircuits it \<Longrightarrow>
     downloadImage k e dst it fs =
       \<lparr>returned = True, itemAfter = it, fsAfter = fs, probed = [], selected = [],
        requested = []\<rparr>"
  by (simp add: downloadImage_def shortCircuits_def)

lemma downloadImage_nothing_selected:
  "\<not> shortCircuits it \<Longrightarrow> fst (selectionOf k e it) = [] \<Longrightarrow>
     downloadImage k e dst it fs =
       \<lparr>returned = True, itemAfter = it\<lparr>imgDownloaded := Some True\<rparr>, fsAfter = fs,
        probed = snd (selectionOf k e it), selected = [], requested = []\<rparr>"
proof -
  assume a: "\<not> shortCircuits it" and b: "fst (selectionOf k e it) = []"
  obtain heads where "selectImageBySize (httpHead e) (imgUrls it) (MAX_IMAGE_SIZE k)
      (maxNumImg k it) = ([], heads)"
    using b by (cases "selectImageBySize (httpHead e) (imgUrls it) (MAX_IMAGE_SIZE k) (maxNumImg k it)")
      (simp add: selectionOf_def)
  with a show ?thesis
    by (simp add: downloadImage_def shortCircuits_def selectionOf_def)
qed

lemma the_imgPaths_init:
  "the (imgPaths (if imgPaths it = None
                  then it\<lparr>imgDownloaded := Some False, imgPaths := Some []\<rparr> else it)) = pathsOf it"
  by (cases "imgPaths it") (simp_all add: pathsOf_def)

lemma downloadImage_downloads:
  assumes "\<not> shortCircuits it" and "fst (selectionOf k e it) \<noteq> []"
  shows "returned (downloadImage k e dst it fs) =
           (\<forall>u\<in>set (todoOf k e dst it fs). downloadSucceeds e dst u)"
    and "requested (downloadImage k e dst it fs) = todoOf k e dst it fs"
    and "selected (downloadImage k e dst it fs) = fst (selectionOf k e it)"
    and "probed (downloadImage k e dst it fs) = snd (selectionOf k e it)"
    and "imgPaths (itemAfter (downloadImage k e dst it fs)) =
           Some (repairedOf k e dst it fs @
                 map (localPath dst)
                   (filter (downloadSucceeds e dst)
                      (completionOrder (latency e) (todoOf k e dst it fs))))"
    and "imgDownloaded (itemAfter (downloadImage k e dst it fs)) =
           (if \<forall>u\<in>set (todoOf k e dst it fs). downloadSucceeds e dst u then Some True
            else if imgPaths it = None then Some False else imgDownloaded it)"
    and "fsAfter (downloadImage k e dst it fs) =
           fst (snd (settleAll e dst (completionOrder (latency e) (todoOf k e dst it fs)) fs
                       (repairedOf k e dst it fs)))"
proof -
  obtain sel heads where sel: "selectImageBySize (httpHead e) (imgUrls it) (MAX_IMAGE_SIZE k)
      (maxNumImg k it) = (sel, heads)" by (cases "selectImageBySize (httpHead e) (imgUrls it) (MAX_IMAGE_SIZE k) (maxNumImg k it)")
  with assms(2) have ne: "sel \<noteq> []" by (simp add: selectionOf_def)
  obtain todo paths1 where f: "filterDownloaded fs dst sel (pathsOf it) = (todo, paths1)"
    by (cases "filterDownloaded fs dst sel (pathsOf it)")
  obtain rs fs2 paths2 where
    s: "settleAll e dst (completionOrder (latency e) todo) fs paths1 = (rs, fs2, paths2)"
    by (cases "settleAll e dst (completionOrder (latency e) todo) fs paths1") auto
  have t: "todoOf k e dst it fs = todo" "repairedOf k e dst it fs = paths1"
    by (simp_all add: todoOf_def repairedOf_def selectionOf_def sel f)
  have all: "list_all (\<lambda>v. v = Inr True) rs = (\<forall>u\<in>set todo. downloadSucceeds e dst u)"
    using settleAll_results[of e dst "completionOrder (latency e) todo" fs paths1]
    by (simp add: s set_completionOrder)
  have p2: "paths2 = paths1 @ map (localPath dst)
              (filter (downloadSucceeds e dst) (completionOrder (latency e) todo))"
    using settleAll_paths[of e dst "completionOrder (latency e) todo" fs paths1]
    by (simp add: s)
  have d: "downloadImage k e dst it fs =
     (let it1 = (if imgPaths it = None
                 then it\<lparr>imgDownloaded := Some False, imgPaths := Some []\<rparr> else it)
      in if list_all (\<lambda>v. v = Inr True) rs
         then \<lparr>returned = True,
               itemAfter = it1\<lparr>imgPaths := Some paths2, imgDownloaded := Some True\<rparr>,
               fsAfter = fs2, probed = heads, selected = sel, requested = todo\<rparr>
         else \<lparr>returned = False, itemAfter = it1\<lparr>imgPaths := Some paths2\<rparr>,
               fsAfter = fs2, probed = heads, selected = sel, requested = todo\<rparr>)"
    using assms(1) ne
    by (simp add: downloadImage_def shortCircuits_def sel the_imgPaths_init f s Let_def
             del: filterDownloaded.simps settleAll.simps)
  show "returned (downloadImage k e dst it fs) =
           (\<forall>u\<in>set (todoOf k e dst it fs). downloadSucceeds e dst u)"
    by (simp add: d t all Let_def)
  show "requested (downloadImage k e dst it fs) = todoOf k e dst it fs"
    by (simp add: d t Let_def)
  show "selected (downloadImage k e dst it fs) = fst (selectionOf k e it)"
    by (simp add: d selectionOf_def sel Let_def)
  show "probed (downloadImage k e dst it fs) = snd (selectionOf k e it)"
    by (simp add: d selectionOf_def sel Let_def)
  show "imgPaths (itemAfter (downloadImage k e dst it fs)) =
           Some (repairedOf k e dst it fs @
                 map (localPath dst)
                   (filter (downloadSucceeds e dst)
                      (completionOrder (latency e) (todoOf k e dst it fs))))"
    by (simp add: d t p2 Let_def)
  show "imgDownloaded (itemAfter (downloadImage k e dst it fs)) =
           (if \<forall>u\<in>set (todoOf k e dst it fs). downloadSucceeds e dst u then Some True
            else if imgPaths it = None then Some False else imgDownloaded it)"
    by (simp add: d t all Let_def)
  show "fsAfter (downloadImage k e dst it fs) =
           fst (snd (settleAll e dst (completionOrder (latency e) (todoOf k e dst it fs)) fs
                       (repairedOf k e dst it fs)))"
    by (simp add: d t s Let_def)
qed

lemma downloadImage_keeps:
  "imgUrls (itemAfter (downloadImage k e dst it fs)) = imgUrls it \<and>
   abstract (itemAfter (downloadImage k e dst it fs)) = abstract it"
proof (cases "shortCircuits it")
  case True
  then show ?thesis by (simp add: downloadImage_short)
next
  case False
  show ?thesis
  proof (cases "fst (selectionOf k e it) = []")
    case True
    with False show ?thesis by (simp add: downloadImage_nothing_selected)
  next
    case ne: False
    obtain sel heads where sel: "selectImageBySize (httpHead e) (imgUrls it) (MAX_IMAGE_SIZE k)
        (maxNumImg k it) = (sel, heads)"
      by (cases "selectImageBySize (httpHead e) (imgUrls it) (MAX_IMAGE_SIZE k) (maxNumImg k it)")
    obtain todo paths1 where f: "filterDownloaded fs dst sel (pathsOf it) = (todo, paths1)"
      by (cases "filterDownloaded fs dst sel (pathsOf it)")
    obtain rs fs2 paths2 where
      s: "settleAll e dst (completionOrder (latency e) todo) fs paths1 = (rs, fs2, paths2)"
      by (cases "settleAll e dst (completionOrder (latency e) todo) fs paths1") auto
    from False ne show ?thesis
      by (simp add: downloadImage_def shortCircuits_def selectionOf_def sel the_imgPaths_init
            f s Let_def del: filterDownloaded.simps settleAll.simps)
  qed
qed



lemma selection_subset: "set (fst (selectionOf k e it)) \<subseteq> set (imgUrls it)"
proof -
  have "set (take n (filter P xs)) \<subseteq> set xs" for n P and xs :: "jsstring list"
    using set_take_subset[of n "filter P xs"] by auto
  then show ?thesis
    by (simp add: selectionOf_def selectImageBySize_def selectLoop_selected)
qed

lemma repairedOf_paths:
  "\<exists>rep. repairedOf k e dst it fs = pathsOf it @ rep \<and>
     set rep \<subseteq> {p \<in> localPath dst ` set (fst (selectionOf k e it)). file_exists fs p}"
  unfolding repairedOf_def by (rule filterDownloaded_paths)

lemma downloadImage_paths_shape:
  "\<exists>rep. pathsOf (itemAfter (downloadImage k e dst it fs)) =
       pathsOf it @ rep @
       map (localPath dst)
         (filter (downloadSucceeds e dst)
            (completionOrder (latency e) (requested (downloadImage k e dst it fs)))) \<and>
     set rep \<subseteq> {p \<in> localPath dst ` set (selected (downloadImage k e dst it fs)).
                     file_exists fs p} \<and>
     set (selected (downloadImage k e dst it fs)) \<subseteq> set (imgUrls it) \<and>
     set (requested (downloadImage k e dst it fs)) \<subseteq> set (selected (downloadImage k e dst it fs)) \<and>
     prefix (pathsOf it) (pathsOf (itemAfter (downloadImage k e dst it fs)))"
proof (cases "shortCircuits it")
  case True
  then show ?thesis
    by (intro exI[of _ "[]"]) (simp add: downloadImage_short completionOrder_def)
next
  case False
  show ?thesis
  proof (cases "fst (selectionOf k e it) = []")
    case True
    with False show ?thesis
      by (intro exI[of _ "[]"])
         (simp add: downloadImage_nothing_selected completionOrder_def pathsOf_def)
  next
    case ne: False
    note d = downloadImage_downloads[OF False ne, of dst fs]
    from repairedOf_paths[of k e dst it fs] obtain rep where
      rep: "repairedOf k e dst it fs = pathsOf it @ rep"
           "set rep \<subseteq> {p \<in> localPath dst ` set (fst (selectionOf k e it)). file_exists fs p}"
      by blast
    have req: "set (todoOf k e dst it fs) \<subseteq> set (fst (selectionOf k e it))"
      using filterDownloaded_kept[of _ fs dst "fst (selectionOf k e it)" "pathsOf it"]
      by (auto simp: todoOf_def)
    have p: "pathsOf (itemAfter (downloadImage k e dst it fs)) =
       pathsOf it @ rep @
       map (localPath dst)
         (filter (downloadSucceeds e dst)
            (completionOrder (latency e) (requested (downloadImage k e dst it fs))))"
      by (simp add: pathsOf_def d(5) d(2) rep(1))
    then have pre: "prefix (pathsOf it) (pathsOf (itemAfter (downloadImage k e dst it fs)))"
      by simp
    from p rep(2) req pre selection_subset[of k e it] show ?thesis
      by (intro exI[of _ rep]) (simp add: d(2) d(3))
  qed
qed

lemma downloadImage_paths_prefix:
  "prefix (pathsOf it) (pathsOf (itemAfter (downloadImage k e dst it fs)))"
  using downloadImage_paths_shape[of k e dst it fs] by blast



section \<open>A second call after a first\<close>

lemma selectionOf_cong:
  "httpHead e2 = httpHead e \<Longrightarrow> imgUrls it2 = imgUrls it \<Longrightarrow> abstract it2 = abstract it \<Longrightarrow>
     selectionOf k e2 it2 = selectionOf k e it"
  by (simp add: selectionOf_def maxNumImg_def)

lemma selectionOf_after:
  "httpHead e2 = httpHead e \<Longrightarrow>
     selectionOf k e2 (itemAfter (downloadImage k e dst it fs)) = selectionOf k e it"
  by (rule selectionOf_cong) (simp_all add: downloadImage_keeps)

lemma pathsOf_after_downloads:
  assumes "\<not> shortCircuits it" and "fst (selectionOf k e it) \<noteq> []"
  shows "pathsOf (itemAfter (downloadImage k e dst it fs)) =
           repairedOf k e dst it fs @
           map (localPath dst)
             (filter (downloadSucceeds e dst)
                (completionOrder (latency e) (todoOf k e dst it fs)))"
  by (simp add: pathsOf_def downloadImage_downloads(5)[OF assms])

lemma fsAfter_exists:
  assumes "\<not> shortCircuits it" and "fst (selectionOf k e it) \<noteq> []"
  shows "file_exists (fsAfter (downloadImage k e dst it fs)) p =
           (file_exists fs p \<or>
            p \<in> localPath dst ` {u \<in> set (todoOf k e dst it fs). downloadSucceeds e dst u})"
  by (simp add: downloadImage_downloads(7)[OF assms] settleAll_exists set_completionOrder)

lemma succeeded_recorded:
  assumes "\<not> shortCircuits it" and "fst (selectionOf k e it) \<noteq> []"
    and "u \<in> set (todoOf k e dst it fs)" and "downloadSucceeds e dst u"
  shows "localPath dst u \<in> set (pathsOf (itemAfter (downloadImage k e dst it fs)))"
  using assms(3,4) by (simp add: pathsOf_after_downloads[OF assms(1,2)] set_completionOrder)

lemma selected_recorded_or_todo:
  assumes "u \<in> set (fst (selectionOf k e it))"
  shows "u \<in> set (todoOf k e dst it fs) \<or> localPath dst u \<in> set (repairedOf k e dst it fs)"
  using filterDownloaded_dropped[OF assms, of fs dst "pathsOf it"]
  by (auto simp: todoOf_def repairedOf_def)

lemma retry_requests:
  assumes ns: "\<not> shortCircuits it" and ne: "fst (selectionOf k e it) \<noteq> []"
    and hd: "httpHead e2 = httpHead e"
  shows "set (todoOf k e2 dst (itemAfter (downloadImage k e dst it fs))
                (fsAfter (downloadImage k e dst it fs))) \<subseteq>
           {u \<in> set (todoOf k e dst it fs). \<not> downloadSucceeds e dst u}"
proof
  fix u
  let ?r = "downloadImage k e dst it fs"
  assume "u \<in> set (todoOf k e2 dst (itemAfter ?r) (fsAfter ?r))"
  then have "u \<in> set (fst (filterDownloaded (fsAfter ?r) dst (fst (selectionOf k e it))
                 (pathsOf (itemAfter ?r))))"
    by (simp add: todoOf_def selectionOf_after[OF hd])
  from filterDownloaded_kept[OF this]
  have u: "u \<in> set (fst (selectionOf k e it))"
    and np: "localPath dst u \<notin> set (pathsOf (itemAfter ?r))" by simp_all
  from np have nr: "localPath dst u \<notin> set (repairedOf k e dst it fs)"
    by (simp add: pathsOf_after_downloads[OF ns ne])
  with selected_recorded_or_todo[OF u, of dst fs] have t: "u \<in> set (todoOf k e dst it fs)"
    by blast
  have "\<not> downloadSucceeds e dst u"
    using succeeded_recorded[OF ns ne t] np by blast
  with t show "u \<in> {u \<in> set (todoOf k e dst it fs). \<not> downloadSucceeds e dst u}" by simp
qed

lemma no_repair_after:
  assumes ns: "\<not> shortCircuits it" and ne: "fst (selectionOf k e it) \<noteq> []"
    and hd: "httpHead e2 = httpHead e"
  shows "repairedOf k e2 dst (itemAfter (downloadImage k e dst it fs))
           (fsAfter (downloadImage k e dst it fs)) =
         pathsOf (itemAfter (downloadImage k e dst it fs))"
proof -
  let ?r = "downloadImage k e dst it fs"
  have "localPath dst u \<in> set (pathsOf (itemAfter ?r)) \<or>
        \<not> file_exists (fsAfter ?r) (localPath dst u)"
    if u: "u \<in> set (fst (selectionOf k e it))" for u
  proof (cases "file_exists (fsAfter ?r) (localPath dst u)")
    case False
    then show ?thesis by simp
  next
    case True
    then consider "file_exists fs (localPath dst u)"
      | v where "v \<in> set (todoOf k e dst it fs)" "downloadSucceeds e dst v"
          "localPath dst u = localPath dst v"
      by (auto simp: fsAfter_exists[OF ns ne])
    then have "localPath dst u \<in> set (pathsOf (itemAfter ?r))"
    proof cases
      case 1
      have "u \<notin> set (todoOf k e dst it fs)"
        using filterDownloaded_kept[of u fs dst "fst (selectionOf k e it)" "pathsOf it"] 1
        by (auto simp: todoOf_def)
      with selected_recorded_or_todo[OF u, of dst fs]
      have "localPath dst u \<in> set (repairedOf k e dst it fs)" by blast
      then show ?thesis by (simp add: pathsOf_after_downloads[OF ns ne])
    next
      case 2
      from succeeded_recorded[OF ns ne 2(1) 2(2)] 2(3) show ?thesis by simp
    qed
    then show ?thesis by simp
  qed
  then show ?thesis
    unfolding repairedOf_def selectionOf_after[OF hd]
    by (intro filterDownloaded_no_repair) blast
qed

lemma requested_fresh:
  "u \<in> set (requested (downloadImage k e dst it fs)) \<Longrightarrow>
     u \<in> set (selected (downloadImage k e dst it fs)) \<and>
     localPath dst u \<notin> set (pathsOf it) \<and> \<not> file_exists fs (localPath dst u)"
proof (cases "shortCircuits it")
  case True
  assume "u \<in> set (requested (downloadImage k e dst it fs))"
  with True show ?thesis by (simp add: downloadImage_short)
next
  case False
  assume a: "u \<in> set (requested (downloadImage k e dst it fs))"
  show ?thesis
  proof (cases "fst (selectionOf k e it) = []")
    case True
    with False a show ?thesis by (simp add: downloadImage_nothing_selected)
  next
    case ne: False
    from a have "u \<in> set (fst (filterDownloaded fs dst (fst (selectionOf k e it)) (pathsOf it)))"
      by (simp add: downloadImage_downloads(2)[OF False ne] todoOf_def)
    from filterDownloaded_kept[OF this] show ?thesis
      by (simp add: downloadImage_downloads(3)[OF False ne])
  qed
qed

lemma selected_on_disk_repaired:
  assumes "u \<in> set (selected (downloadImage k e dst it fs))"
    and "file_exists fs (localPath dst u)"
  shows "u \<notin> set (requested (downloadImage k e dst it fs)) \<and>
         localPath dst u \<in> set (pathsOf (itemAfter (downloadImage k e dst it fs)))"
proof -
  from assms(2) requested_fresh[of u k e dst it fs]
  have nr: "u \<notin> set (requested (downloadImage k e dst it fs))" by blast
  have ns: "\<not> shortCircuits it" using assms(1) by (auto simp: downloadImage_short)
  have ne: "fst (selectionOf k e it) \<noteq> []"
    using assms(1) ns by (auto simp: downloadImage_nothing_selected)
  from assms(1) have u: "u \<in> set (fst (selectionOf k e it))"
    by (simp add: downloadImage_downloads(3)[OF ns ne])
  from nr have "u \<notin> set (todoOf k e dst it fs)"
    by (simp add: downloadImage_downloads(2)[OF ns ne])
  with selected_recorded_or_todo[OF u, of dst fs]
  have "localPath dst u \<in> set (repairedOf k e dst it fs)" by blast
  then have "localPath dst u \<in> set (pathsOf (itemAfter (downloadImage k e dst it fs)))"
    by (simp add: pathsOf_after_downloads[OF ns ne])
  with nr show ?thesis by simp
qed


lemma second_call_same_paths:
  assumes hd: "httpHead e2 = httpHead e"
    and same: "\<forall>u. downloadSucceeds e2 dst u = downloadSucceeds e dst u"
  shows "imgPaths (itemAfter (downloadImage k e2 dst (itemAfter (downloadImage k e dst it fs))
                     (fsAfter (downloadImage k e dst it fs)))) =
         imgPaths (itemAfter (downloadImage k e dst it fs))"
proof (cases "shortCircuits (itemAfter (downloadImage k e dst it fs))")
  case True
  then show ?thesis by (simp add: downloadImage_short)
next
  case ns2: False
  let ?r = "downloadImage k e dst it fs"
  have ns: "\<not> shortCircuits it"
  proof
    assume "shortCircuits it"
    then have "itemAfter ?r = it" by (simp add: downloadImage_short)
    with ns2 \<open>shortCircuits it\<close> show False by simp
  qed
  have ne: "fst (selectionOf k e it) \<noteq> []"
  proof
    assume "fst (selectionOf k e it) = []"
    with ns have "imgDownloaded (itemAfter ?r) = Some True"
      by (simp add: downloadImage_nothing_selected)
    with ns2 show False by (simp add: shortCircuits_def)
  qed
  have ne2: "fst (selectionOf k e2 (itemAfter ?r)) \<noteq> []"
    using ne by (simp add: selectionOf_after[OF hd])
  have "filter (downloadSucceeds e2 dst)
          (completionOrder (latency e2) (todoOf k e2 dst (itemAfter ?r) (fsAfter ?r))) = []"
    using retry_requests[OF ns ne hd, of dst fs] same
    by (auto simp: filter_empty_conv set_completionOrder)
  then have "imgPaths (itemAfter (downloadImage k e2 dst (itemAfter ?r) (fsAfter ?r))) =
      Some (pathsOf (itemAfter ?r))"
    by (simp add: downloadImage_downloads(5)[OF ns2 ne2] no_repair_after[OF ns ne hd])
  also have "\<dots> = imgPaths (itemAfter ?r)"
    by (simp add: pathsOf_def downloadImage_downloads(5)[OF ns ne])
  finally show ?thesis .
qed

text \<open>
  \<open>imgPaths\<close> is created together with a flag, and the flag is never removed: an item
  that has recorded paths has a flag, after every call.
\<close>

lemma downloadImage_tracked:
  assumes "imgPaths it \<noteq> None \<longrightarrow> imgDownloaded it \<noteq> None"
  shows "imgPaths (itemAfter (downloadImage k e dst it fs)) \<noteq> None \<longrightarrow>
         imgDownloaded (itemAfter (downloadImage k e dst it fs)) \<noteq> None"
proof (cases "shortCircuits it")
  case True
  with assms show ?thesis by (simp add: downloadImage_short)
next
  case False
  show ?thesis
  proof (cases "fst (selectionOf k e it) = []")
    case True
    with False show ?thesis by (simp add: downloadImage_nothing_selected)
  next
    case ne: False
    from assms show ?thesis
      by (auto simp: downloadImage_downloads(6)[OF False ne])
  qed
qed


text \<open>The definitions to unfold when an example is evaluated.\<close>


lemmas ex_simps = downloadImage_def exEnv_def
        exConstants_def exGet_def sizedProbe_def sizeAccepted_def selectImageBySize_def
        maxNumImg_def localPath_def lastSegment_def slash_def file_exists_def put_file_def
        emptyFs_def completionOrder_def fetchImage_def pathsOf_def ascii_def Let_def
        freshItem_def img1_def img2_def img3_def imgSizes_def downloadSucceeds_def




section \<open>Properties of the image pass and of \<open>getEntry\<close>\<close>

lemma downloadImage_returned:
  "returned (downloadImage k e dst it fs) = shortCircuits (itemAfter (downloadImage k e dst it fs))"
proof (cases "shortCircuits it")
  case True
  then show ?thesis by (simp add: downloadImage_short)
next
  case False
  show ?thesis
  proof (cases "fst (selectionOf k e it) = []")
    case True
    with False show ?thesis by (simp add: downloadImage_nothing_selected shortCircuits_def)
  next
    case ne: False
    from False have "imgDownloaded it \<noteq> Some True" "imgUrls it \<noteq> []"
      by (simp_all add: shortCircuits_def)
    then show ?thesis
      using downloadImage_keeps[of k e dst it fs]
      by (simp add: shortCircuits_def downloadImage_downloads(1,6)[OF False ne])
  qed
qed

lemma finishDownloads_consistent:
  "\<not> shortCircuits it \<Longrightarrow> consistent (finishDownloads it rs)"
  by (simp add: finishDownloads_def consistent_def shortCircuits_def)

lemma startDownloads_consistent:
  assumes "\<not> shortCircuits it"
  shows "consistent (startDownloads dst fs it shown)"
proof (cases "shown = []")
  case True
  then show ?thesis by (simp add: startDownloads_def consistent_def shortCircuits_def)
next
  case False
  define it1 where "it1 = (if imgPaths it = None
      then it\<lparr>imgDownloaded := Some False, imgPaths := Some []\<rparr> else it)"
  obtain todo paths1 where f: "filterDownloaded fs dst shown (the (imgPaths it1)) = (todo, paths1)"
    by (cases "filterDownloaded fs dst shown (the (imgPaths it1))")
  have n: "\<not> shortCircuits (it1\<lparr>imgPaths := Some paths1\<rparr>)"
    using assms by (simp add: it1_def shortCircuits_def)
  have s: "startDownloads dst fs it shown =
      (if todo = [] then finishDownloads (it1\<lparr>imgPaths := Some paths1\<rparr>) []
       else (it1\<lparr>imgPaths := Some paths1\<rparr>, Downloading todo []))"
    using False f by (simp add: startDownloads_def it1_def Let_def del: filterDownloaded.simps)
  show ?thesis
    using n by (simp add: s finishDownloads_consistent) (simp add: consistent_def)
qed

lemma probeNext_consistent:
  "\<not> shortCircuits it \<Longrightarrow> consistent (probeNext k dst fs it sel rest)"
  by (cases rest) (simp_all add: probeNext_def startDownloads_consistent, simp add: consistent_def)

lemma startItem_consistent: "consistent (startItem k dst fs it)"
proof (cases "shortCircuits it")
  case True
  then show ?thesis by (simp add: startItem_def shortCircuits_def consistent_def)
next
  case False
  then have "startItem k dst fs it = probeNext k dst fs it [] (imgUrls it)"
    by (simp add: startItem_def shortCircuits_def)
  with False show ?thesis by (simp add: probeNext_consistent)
qed

lemma responseArrives_consistent:
  assumes "consistent w"
  shows "consistent (fst (responseArrives k e dst j w fs))"
proof (cases w)
  case (Pair it t)
  show ?thesis
  proof (cases t)
    case (Probing sel url rest)
    with Pair assms have "\<not> shortCircuits it" by (simp add: consistent_def)
    with Pair Probing assms show ?thesis by (simp add: probeNext_consistent)
  next
    case (Downloading pending results)
    with Pair assms have n: "\<not> shortCircuits it" by (simp add: consistent_def)
    show ?thesis
    proof (cases "j < length pending")
      case False
      with Pair Downloading assms show ?thesis by simp
    next
      case True
      obtain r fs' paths' where f: "fetchImage e dst (pending ! j) fs (pathsOf it) = (r, fs', paths')"
        by (cases "fetchImage e dst (pending ! j) fs (pathsOf it)") auto
      from n have n': "\<not> shortCircuits (it\<lparr>imgPaths := Some paths'\<rparr>)"
        by (simp add: shortCircuits_def)
      from True f Pair Downloading show ?thesis
        using finishDownloads_consistent[OF n', of "results @ [r]"] n'
        by (simp add: consistent_def)
    qed
  next
    case (Settled v)
    with Pair assms show ?thesis by simp
  qed
qed

lemma runEvents_consistent:
  "list_all consistent ws \<Longrightarrow> list_all consistent (fst (runEvents k e dst evs ws fs))"
proof (induction evs arbitrary: ws fs)
  case Nil
  then show ?case by simp
next
  case (Cons ev evs)
  obtain i j where ev: "ev = (i, j)" by (cases ev)
  show ?case
  proof (cases "i < length ws")
    case False
    with ev Cons show ?thesis by simp
  next
    case True
    obtain w fs' where r: "responseArrives k e dst j (ws ! i) fs = (w, fs')"
      by (cases "responseArrives k e dst j (ws ! i) fs")
    from Cons.prems True have "consistent (ws ! i)" by (simp add: list_all_length)
    from responseArrives_consistent[OF this, of k e dst j fs] r have "consistent w" by simp
    with Cons.prems have "list_all consistent (ws[i := w])"
      by (auto simp: list_all_iff dest: set_update_subset_insert[THEN subsetD])
    from Cons.IH[OF this, of fs'] True ev r show ?thesis by simp
  qed
qed

lemma runEvents_length: "length (fst (runEvents k e dst evs ws fs)) = length ws"
proof (induction evs arbitrary: ws fs)
  case Nil
  then show ?case by simp
next
  case (Cons ev evs)
  obtain i j where ev: "ev = (i, j)" by (cases ev)
  show ?case
  proof (cases "i < length ws")
    case False
    with ev Cons show ?thesis by simp
  next
    case True
    obtain w fs' where r: "responseArrives k e dst j (ws ! i) fs = (w, fs')"
      by (cases "responseArrives k e dst j (ws ! i) fs")
    from Cons.IH[of "ws[i := w]" fs'] True ev r show ?thesis by simp
  qed
qed

lemma consistent_flag:
  "consistent w \<Longrightarrow> (hasSettled w \<and> snd w = Settled True) = shortCircuits (fst w)"
  by (cases w, cases "snd w") (auto simp: consistent_def hasSettled_def)

lemma consistent_pass_flag:
  assumes "list_all consistent ws"
  shows "(if list_all hasSettled ws then list_all (\<lambda>w. snd w = Settled True) ws else False) =
         list_all shortCircuits (map fst ws)"
proof -
  have "(if list_all hasSettled ws then list_all (\<lambda>w. snd w = Settled True) ws else False) =
        list_all (\<lambda>w. hasSettled w \<and> snd w = Settled True) ws"
    by (auto simp: list_all_iff)
  also have "\<dots> = list_all (\<lambda>w. shortCircuits (fst w)) ws"
    using assms consistent_flag by (auto simp: list_all_iff)
  also have "\<dots> = list_all shortCircuits (map fst ws)"
    by (simp add: list_all_iff)
  finally show ?thesis .
qed

lemma tryDownloadAll_unfold:
  "tryDownloadAllImageWithTimeout k e dst its partialDownloaded fs =
     (if \<not> partialDownloaded \<and> \<not> fst (prepareForImageDownload k e dst fs)
      then (False, its, snd (prepareForImageDownload k e dst fs))
      else
        (let fs1 = (if partialDownloaded then fs else snd (prepareForImageDownload k e dst fs));
             run = runEvents k e dst (imageEvents e) (map (startItem k dst fs1) its) fs1
         in (if list_all hasSettled (fst run)
             then list_all (\<lambda>w. snd w = Settled True) (fst run) else False,
             map fst (fst run), snd run)))"
  by (cases "prepareForImageDownload k e dst fs")
     (auto simp: tryDownloadAllImageWithTimeout_def Let_def split: prod.splits bool.splits)

lemma tryDownloadAll_ran:
  assumes "partialDownloaded \<or> fst (prepareForImageDownload k e dst fs)"
  shows "fst (tryDownloadAllImageWithTimeout k e dst its partialDownloaded fs) =
     list_all shortCircuits (fst (snd (tryDownloadAllImageWithTimeout k e dst its partialDownloaded fs)))"
proof -
  define fs1 where "fs1 = (if partialDownloaded then fs else snd (prepareForImageDownload k e dst fs))"
  define run where "run = runEvents k e dst (imageEvents e) (map (startItem k dst fs1) its) fs1"
  have "list_all consistent (map (startItem k dst fs1) its)"
    by (simp add: list_all_iff startItem_consistent)
  then have c: "list_all consistent (fst run)"
    unfolding run_def by (rule runEvents_consistent)
  from assms have t: "tryDownloadAllImageWithTimeout k e dst its partialDownloaded fs =
      (if list_all hasSettled (fst run)
       then list_all (\<lambda>w. snd w = Settled True) (fst run) else False,
       map fst (fst run), snd run)"
    by (auto simp: tryDownloadAll_unfold Let_def fs1_def run_def)
  show ?thesis
    by (simp only: t fst_conv snd_conv consistent_pass_flag[OF c])
qed

lemma tryDownloadAll_not_prepared:
  assumes "\<not> partialDownloaded" and "\<not> fst (prepareForImageDownload k e dst fs)"
  shows "tryDownloadAllImageWithTimeout k e dst its partialDownloaded fs =
     (False, its, snd (prepareForImageDownload k e dst fs))"
  using assms by (simp add: tryDownloadAll_unfold)

lemma tryDownloadAll_flag:
  "fst (tryDownloadAllImageWithTimeout k e dst its partialDownloaded fs) \<longrightarrow>
     list_all shortCircuits (fst (snd (tryDownloadAllImageWithTimeout k e dst its partialDownloaded fs)))"
proof (cases "partialDownloaded \<or> fst (prepareForImageDownload k e dst fs)")
  case True
  from tryDownloadAll_ran[OF this] show ?thesis by simp
next
  case False
  then show ?thesis by (simp add: tryDownloadAll_unfold)
qed

lemma isCacheValid_iff:
  "isCacheValid k e cached nowDate =
     (\<exists>c its d. cached = Some c \<and> items c = Some its \<and> date c = Some d \<and>
        nowDate - d < refreshInterval k e * 60000)"
  by (auto simp: isCacheValid_def split: option.splits)

lemma getEntry_empty_name:
  "getEntry k e [] forceLoad store fs =
     \<lparr>info = None, entryDate = None, cacheAfter = store, fsOut = fs,
      remoteCalled = False, cacheWrites = []\<rparr>"
  by (simp add: getEntry_def)

lemma getEntry_remoteCalled:
  "tiebaName \<noteq> [] \<Longrightarrow>
     remoteCalled (getEntry k e tiebaName forceLoad store fs) =
       (forceLoad \<or> \<not> isCacheValid k e (store tiebaName) (nowAtCheck e))"
  by (simp add: getEntry_def Let_def split: prod.splits option.splits)

lemma getEntry_fetch_failed:
  assumes "tiebaName \<noteq> []"
    and "forceLoad \<or> \<not> isCacheValid k e (store tiebaName) (nowAtCheck e)"
    and "tryGetTiebaPostWithTimeout e tiebaName (POST_INFO_TIMEOUT k) (MAX_NUMBER_OF_POST k) = None"
  shows "getEntry k e tiebaName forceLoad store fs =
     \<lparr>info = (case store tiebaName of
                None \<Rightarrow> None
              | Some c \<Rightarrow> if items c \<noteq> None \<and> date c \<noteq> None then items c else None),
      entryDate = (case store tiebaName of
                None \<Rightarrow> None
              | Some c \<Rightarrow> if items c \<noteq> None \<and> date c \<noteq> None then date c else None),
      cacheAfter = store, fsOut = fs, remoteCalled = True, cacheWrites = []\<rparr>"
  using assms by (auto simp: getEntry_def Let_def split: option.splits)

lemma tryGet_None_iff:
  "(tryGetTiebaPostWithTimeout e tiebaName maxTime maxNumPost = None) =
     (fetchPosts e tiebaName maxTime maxNumPost \<in> {Throws, TimesOut, Returns None})"
  by (auto simp: tryGetTiebaPostWithTimeout_def split: outcome.splits)

lemma getEntry_info_some:
  assumes "tiebaName \<noteq> []"
    and "\<not> (forceLoad \<or> \<not> isCacheValid k e (store tiebaName) (nowAtCheck e)) \<or>
         tryGetTiebaPostWithTimeout e tiebaName (POST_INFO_TIMEOUT k) (MAX_NUMBER_OF_POST k) \<noteq> None"
  shows "info (getEntry k e tiebaName forceLoad store fs) \<noteq> None"
  using assms by (auto simp: getEntry_def Let_def split: option.splits prod.splits)


lemma getEntry_write_shape:
  assumes "(key, v) \<in> set (cacheWrites (getEntry k e tiebaName forceLoad store fs))"
  shows "\<exists>its0. key = tiebaName \<and>
     cacheAfter (getEntry k e tiebaName forceLoad store fs) tiebaName = Some v \<and>
     info (getEntry k e tiebaName forceLoad store fs) = items v \<and>
     items v = Some (fst (snd (tryDownloadAllImageWithTimeout k e
                  (IMAGE_DOWNLOAD_DIR k @ [slash] @ tiebaName) its0
                  (\<not> remoteCalled (getEntry k e tiebaName forceLoad store fs)) fs))) \<and>
     imgAllDownloaded v = fst (tryDownloadAllImageWithTimeout k e
                  (IMAGE_DOWNLOAD_DIR k @ [slash] @ tiebaName) its0
                  (\<not> remoteCalled (getEntry k e tiebaName forceLoad store fs)) fs)"
proof (cases "tiebaName = []")
  case True
  with assms show ?thesis by (simp add: getEntry_empty_name)
next
  case name: False
  let ?dst = "IMAGE_DOWNLOAD_DIR k @ [slash] @ tiebaName"
  let ?g = "getEntry k e tiebaName forceLoad store fs"
  show ?thesis
  proof (cases "\<not> forceLoad \<and> isCacheValid k e (store tiebaName) (nowAtCheck e)")
    case True
    then obtain c its d where c: "store tiebaName = Some c" "items c = Some its" "date c = Some d"
      by (auto simp: isCacheValid_iff)
    show ?thesis
    proof (cases "imgAllDownloaded c")
      case True
      with name \<open>\<not> forceLoad \<and> isCacheValid k e (store tiebaName) (nowAtCheck e)\<close> c assms
      show ?thesis by (simp add: getEntry_def Let_def)
    next
      case False
      obtain flag its' fs' where t:
        "tryDownloadAllImageWithTimeout k e ?dst its True fs = (flag, its', fs')"
        by (cases "tryDownloadAllImageWithTimeout k e ?dst its True fs") auto
      have g: "getEntry k e tiebaName forceLoad store fs =
         \<lparr>info = Some its', entryDate = date c,
          cacheAfter = store(tiebaName \<mapsto> \<lparr>items = Some its', date = date c, imgAllDownloaded = flag\<rparr>),
          fsOut = fs', remoteCalled = False,
          cacheWrites = [(tiebaName, \<lparr>items = Some its', date = date c, imgAllDownloaded = flag\<rparr>)]\<rparr>"
        using name \<open>\<not> forceLoad \<and> isCacheValid k e (store tiebaName) (nowAtCheck e)\<close> c False t
        by (simp add: getEntry_def Let_def)
      from t have "fst (tryDownloadAllImageWithTimeout k e ?dst its (\<not> remoteCalled ?g) fs) = flag"
        "fst (snd (tryDownloadAllImageWithTimeout k e ?dst its (\<not> remoteCalled ?g) fs)) = its'"
        by (simp_all add: g)
      with assms show ?thesis
        by (intro exI[of _ its]) (auto simp: g)
    qed
  next
    case fetch: False
    show ?thesis
    proof (cases "tryGetTiebaPostWithTimeout e tiebaName (POST_INFO_TIMEOUT k) (MAX_NUMBER_OF_POST k)")
      case None
      from fetch have f: "forceLoad \<or> \<not> isCacheValid k e (store tiebaName) (nowAtCheck e)" by blast
      have "cacheWrites ?g = []"
        using getEntry_fetch_failed[of tiebaName forceLoad k e store fs] name f None by simp
      with assms show ?thesis by simp
    next
      case (Some its)
      obtain flag its' fs' where t:
        "tryDownloadAllImageWithTimeout k e ?dst its False fs = (flag, its', fs')"
        by (cases "tryDownloadAllImageWithTimeout k e ?dst its False fs") auto
      have g: "getEntry k e tiebaName forceLoad store fs =
         \<lparr>info = Some its', entryDate = Some (nowAtFetch e),
          cacheAfter = store(tiebaName \<mapsto>
             \<lparr>items = Some its', date = Some (nowAtFetch e), imgAllDownloaded = flag\<rparr>),
          fsOut = fs', remoteCalled = True,
          cacheWrites = [(tiebaName,
             \<lparr>items = Some its', date = Some (nowAtFetch e), imgAllDownloaded = flag\<rparr>)]\<rparr>"
      proof -
        from fetch have cond: "(\<not> forceLoad \<and> isCacheValid k e (store tiebaName) (nowAtCheck e)) = False"
          by simp
        show ?thesis
          unfolding getEntry_def Let_def
          by (simp only: cond if_False name Some option.case t prod.case)
      qed
      from t have "fst (tryDownloadAllImageWithTimeout k e ?dst its (\<not> remoteCalled ?g) fs) = flag"
        "fst (snd (tryDownloadAllImageWithTimeout k e ?dst its (\<not> remoteCalled ?g) fs)) = its'"
        by (simp_all add: g)
      with assms show ?thesis
        by (intro exI[of _ its]) (auto simp: g)
    qed
  qed
qed


text \<open>The definitions to unfold when a call of \<open>getEntry\<close> is evaluated.\<close>

lemmas entry_simps = getEntry_def tryDownloadAllImageWithTimeout_def startItem_def
        probeNext_def startDownloads_def finishDownloads_def hasSettled_def
        prepareForImageDownload_def tryGetTiebaPostWithTimeout_def isCacheValid_def
        refreshInterval_def make_dir_def file_delete_def envAt_def tieba_def postX_def
        emptyStore_def storeWith_def recordX_def recordEmpty_def recordUndated_def


section \<open>The pass on one item and \<open>downloadImage\<close>\<close>

text \<open>
  A call of the pass that is alone, with the responses in the order of the requests and
  enough of them, ends as \<open>downloadImage\<close> does when every latency is the same.
\<close>

lemma runEvents_settled:
  "runEvents k e dst (replicate n (0, 0)) [(it, Settled v)] fs = ([(it, Settled v)], fs)"
  by (induction n) simp_all

lemma runEvents_finished:
  "runEvents k e dst (replicate n (0, 0)) [finishDownloads it rs] fs = ([finishDownloads it rs], fs)"
  by (simp add: finishDownloads_def runEvents_settled)

lemma lone_probing:
  "length rest \<le> n \<Longrightarrow>
   \<exists>m\<le>length rest.
     runEvents k e dst (replicate n (0, 0)) [probeNext k dst fs it sel rest] fs =
     runEvents k e dst (replicate (n - m) (0, 0))
       [startDownloads dst fs it
          (fst (selectLoop (httpHead e) (MAX_IMAGE_SIZE k) (maxNumImg k it) sel pr rest))] fs"
proof (induction rest arbitrary: sel pr n)
  case Nil
  then show ?case by (simp add: probeNext_def)
next
  case (Cons url rest)
  show ?case
  proof (cases "int (length sel) < maxNumImg k it")
    case False
    then show ?thesis by (intro exI[of _ 0]) (simp add: probeNext_def)
  next
    case True
    from Cons.prems obtain n' where n: "n = Suc n'" "length rest \<le> n'"
      by (cases n) auto
    define sel' where "sel' = (if sizeAccepted (httpHead e url) (MAX_IMAGE_SIZE k)
        then sel @ [url] else sel)"
    from Cons.IH[OF n(2), of sel' "pr @ [url]"] obtain m where
      m: "m \<le> length rest"
         "runEvents k e dst (replicate n' (0, 0)) [probeNext k dst fs it sel' rest] fs =
          runEvents k e dst (replicate (n' - m) (0, 0))
            [startDownloads dst fs it
               (fst (selectLoop (httpHead e) (MAX_IMAGE_SIZE k) (maxNumImg k it) sel'
                      (pr @ [url]) rest))] fs"
      by blast
    have step: "runEvents k e dst (replicate n (0, 0)) [probeNext k dst fs it sel (url # rest)] fs =
        runEvents k e dst (replicate n' (0, 0)) [probeNext k dst fs it sel' rest] fs"
      using True by (simp add: n(1) probeNext_def sel'_def)
    have loop: "selectLoop (httpHead e) (MAX_IMAGE_SIZE k) (maxNumImg k it) sel pr (url # rest) =
        selectLoop (httpHead e) (MAX_IMAGE_SIZE k) (maxNumImg k it) sel' (pr @ [url]) rest"
      using True by (simp add: sel'_def)
    have sub: "n - Suc m = n' - m" by (simp add: n(1))
    have "runEvents k e dst (replicate n (0, 0)) [probeNext k dst fs it sel (url # rest)] fs =
        runEvents k e dst (replicate (n - Suc m) (0, 0))
          [startDownloads dst fs it
             (fst (selectLoop (httpHead e) (MAX_IMAGE_SIZE k) (maxNumImg k it) sel pr
                    (url # rest)))] fs"
      by (simp only: step loop sub m(2))
    moreover have "Suc m \<le> length (url # rest)" using m(1) by simp
    ultimately show ?thesis by blast
  qed
qed

lemma lone_downloading:
  "todo \<noteq> [] \<Longrightarrow> length todo \<le> n \<Longrightarrow> imgPaths it = Some ps \<Longrightarrow>
   runEvents k e dst (replicate n (0, 0)) [(it, Downloading todo results)] fs =
     ([finishDownloads
         (it\<lparr>imgPaths := Some (snd (snd (settleAll e dst todo fs ps)))\<rparr>)
         (results @ fst (settleAll e dst todo fs ps))],
      fst (snd (settleAll e dst todo fs ps)))"
proof (induction todo arbitrary: n it ps results fs)
  case Nil
  then show ?case by simp
next
  case (Cons u todo)
  from Cons.prems obtain n' where n: "n = Suc n'" "length todo \<le> n'" by (cases n) auto
  obtain r fs' paths' where f: "fetchImage e dst u fs ps = (r, fs', paths')"
    by (cases "fetchImage e dst u fs ps") auto
  have p: "pathsOf it = ps" using Cons.prems(3) by (simp add: pathsOf_def)
  show ?case
  proof (cases "todo = []")
    case True
    then show ?thesis
      by (simp add: n(1) p f runEvents_finished)
  next
    case False
    have step: "runEvents k e dst (replicate n (0, 0)) [(it, Downloading (u # todo) results)] fs =
        runEvents k e dst (replicate n' (0, 0))
          [(it\<lparr>imgPaths := Some paths'\<rparr>, Downloading todo (results @ [r]))] fs'"
      using False by (simp add: n(1) p f)
    have "imgPaths (it\<lparr>imgPaths := Some paths'\<rparr>) = Some paths'" by simp
    from Cons.IH[OF False n(2) this, of "results @ [r]" fs'] show ?thesis
      by (simp add: step f split: prod.splits)
  qed
qed


lemma filterDownloaded_length:
  "length (fst (filterDownloaded fs dst urls paths)) \<le> length urls"
proof (induction urls arbitrary: paths)
  case Nil
  then show ?case by simp
next
  case (Cons u urls)
  from Cons[of paths] Cons[of "paths @ [localPath dst u]"] show ?case
    by (simp add: filterDownloaded_fst_Cons del: filterDownloaded.simps(2))
qed

lemma completionOrder_same_latency: "completionOrder (\<lambda>i. 0) xs = xs"
  by (simp add: completionOrder_def sort_key_const)

lemma lone_call_agrees:
  assumes lat: "latency e = (\<lambda>i. 0)" and n: "2 * length (imgUrls it) \<le> n"
  shows "runEvents k e dst (replicate n (0, 0)) [startItem k dst fs it] fs =
           ([(itemAfter (downloadImage k e dst it fs), Settled (returned (downloadImage k e dst it fs)))],
            fsAfter (downloadImage k e dst it fs))"
proof (cases "shortCircuits it")
  case True
  then have "startItem k dst fs it = (it, Settled True)"
    by (simp add: startItem_def shortCircuits_def)
  with True show ?thesis by (simp add: runEvents_settled downloadImage_short)
next
  case ns: False
  then have st: "startItem k dst fs it = probeNext k dst fs it [] (imgUrls it)"
    by (simp add: startItem_def shortCircuits_def)
  obtain sel heads where sel: "selectImageBySize (httpHead e) (imgUrls it) (MAX_IMAGE_SIZE k)
      (maxNumImg k it) = (sel, heads)"
    by (cases "selectImageBySize (httpHead e) (imgUrls it) (MAX_IMAGE_SIZE k) (maxNumImg k it)")
  then have sl: "fst (selectLoop (httpHead e) (MAX_IMAGE_SIZE k) (maxNumImg k it) [] [] (imgUrls it)) = sel"
    by (simp add: selectImageBySize_def)
  from n have "length (imgUrls it) \<le> n" by simp
  from lone_probing[OF this, of k e dst fs it "[]" "[]"] obtain m where
    m: "m \<le> length (imgUrls it)"
       "runEvents k e dst (replicate n (0, 0)) [probeNext k dst fs it [] (imgUrls it)] fs =
        runEvents k e dst (replicate (n - m) (0, 0)) [startDownloads dst fs it sel] fs"
    by (auto simp: sl)
  show ?thesis
  proof (cases "sel = []")
    case True
    have "startDownloads dst fs it sel = (it\<lparr>imgDownloaded := Some True\<rparr>, Settled True)"
      using True by (simp add: startDownloads_def)
    moreover have "downloadImage k e dst it fs =
        \<lparr>returned = True, itemAfter = it\<lparr>imgDownloaded := Some True\<rparr>, fsAfter = fs,
         probed = heads, selected = [], requested = []\<rparr>"
      using ns True by (simp add: downloadImage_def shortCircuits_def sel)
    ultimately show ?thesis by (simp add: st m(2) runEvents_settled)
  next
    case ne: False
    define it1 where "it1 = (if imgPaths it = None
        then it\<lparr>imgDownloaded := Some False, imgPaths := Some []\<rparr> else it)"
    obtain todo paths1 where f: "filterDownloaded fs dst sel (the (imgPaths it1)) = (todo, paths1)"
      by (cases "filterDownloaded fs dst sel (the (imgPaths it1))")
    obtain rs fs2 paths2 where s: "settleAll e dst todo fs paths1 = (rs, fs2, paths2)"
      by (cases "settleAll e dst todo fs paths1") auto
    have d: "downloadImage k e dst it fs =
       (if list_all (\<lambda>v. v = Inr True) rs
        then \<lparr>returned = True,
              itemAfter = it1\<lparr>imgPaths := Some paths2, imgDownloaded := Some True\<rparr>,
              fsAfter = fs2, probed = heads, selected = sel, requested = todo\<rparr>
        else \<lparr>returned = False, itemAfter = it1\<lparr>imgPaths := Some paths2\<rparr>,
              fsAfter = fs2, probed = heads, selected = sel, requested = todo\<rparr>)"
      using ns ne f s
      by (simp add: downloadImage_def shortCircuits_def sel it1_def[symmetric] Let_def lat
            completionOrder_same_latency del: filterDownloaded.simps settleAll.simps)
    have sd: "startDownloads dst fs it sel =
        (if todo = [] then finishDownloads (it1\<lparr>imgPaths := Some paths1\<rparr>) []
         else (it1\<lparr>imgPaths := Some paths1\<rparr>, Downloading todo []))"
      using ne f by (simp add: startDownloads_def it1_def[symmetric] Let_def del: filterDownloaded.simps)
    have fin: "finishDownloads (it1\<lparr>imgPaths := Some paths2\<rparr>) rs =
        (itemAfter (downloadImage k e dst it fs), Settled (returned (downloadImage k e dst it fs)))"
      by (simp add: d finishDownloads_def)
    show ?thesis
    proof (cases "todo = []")
      case True
      with s have "rs = []" "fs2 = fs" "paths2 = paths1" by simp_all
      with fin True show ?thesis
        by (simp add: st m(2) sd runEvents_finished runEvents_settled d)
    next
      case False
      have "length todo \<le> length sel"
        using filterDownloaded_length[of fs dst sel "the (imgPaths it1)"] by (simp add: f)
      moreover have "length sel \<le> length (imgUrls it)"
      proof -
        have "length (filter (\<lambda>u. sizeAccepted (httpHead e u) (MAX_IMAGE_SIZE k)) (imgUrls it))
            \<le> length (imgUrls it)" by (rule length_filter_le)
        then show ?thesis
          by (simp add: selectLoop_selected[of _ _ _ "[]" "[]"] min_le_iff_disj flip: sl)
      qed
      ultimately have len: "length todo \<le> n - m" using m(1) n by simp
      have ip: "imgPaths (it1\<lparr>imgPaths := Some paths1\<rparr>) = Some paths1" by simp
      from lone_downloading[OF False len ip, of k e dst "[]" fs]
      have "runEvents k e dst (replicate (n - m) (0, 0))
              [(it1\<lparr>imgPaths := Some paths1\<rparr>, Downloading todo [])] fs =
            ([finishDownloads (it1\<lparr>imgPaths := Some paths2\<rparr>) rs], fs2)"
        by (simp add: s)
      with False show ?thesis
        by (simp only: st m(2) sd if_False fin) (simp add: d)
    qed
  qed
qed

subsection \<open>C7: what the selector returns and probes\<close>

text \<open>
  C7, as the code has it. For every locator list, size budget and count budget,
  \<open>selectImageBySize\<close> returns, in the original order, exactly the earliest locators
  whose probe has no error and reports a length that is present, not 0 and at most the
  size budget, up to the count budget. A locator whose probe errors, reports no length
  or reports the length 0 is skipped, and the selection goes on. The locators probed
  are a prefix of the list, the selection is what qualifies among them, every probe was
  made while fewer locators than the count budget had been accepted (so none is probed
  once the budget is reached), the whole list is probed when the budget is not
  reached, and the result is never longer than the count budget.
\<close>

theorem selectImageBySize_selection:
  "fst (selectImageBySize probe urls maxSize n) =
     take (nat n) (filter (\<lambda>u. sizeAccepted (probe u) maxSize) urls) \<and>
   (\<forall>r. sizeAccepted r maxSize =
      (\<not> error r \<and> (\<exists>len. expectedContentLength r = Some len \<and> len \<noteq> 0 \<and> len \<le> maxSize))) \<and>
   prefix (snd (selectImageBySize probe urls maxSize n)) urls \<and>
   filter (\<lambda>u. sizeAccepted (probe u) maxSize) (snd (selectImageBySize probe urls maxSize n)) =
     fst (selectImageBySize probe urls maxSize n) \<and>
   (\<forall>i<length (snd (selectImageBySize probe urls maxSize n)).
      int (length (filter (\<lambda>u. sizeAccepted (probe u) maxSize)
             (take i (snd (selectImageBySize probe urls maxSize n))))) < n) \<and>
   (int (length (fst (selectImageBySize probe urls maxSize n))) < n \<longrightarrow>
      snd (selectImageBySize probe urls maxSize n) = urls) \<and>
   length (fst (selectImageBySize probe urls maxSize n)) \<le> nat n"
proof -
  let ?r = "selectLoop probe maxSize n [] [] urls"
  have sel: "fst ?r = take (nat n) (filter (\<lambda>u. sizeAccepted (probe u) maxSize) urls)"
    by (simp add: selectLoop_selected)
  have acc: "\<forall>r. sizeAccepted r maxSize =
      (\<not> error r \<and> (\<exists>len. expectedContentLength r = Some len \<and> len \<noteq> 0 \<and> len \<le> maxSize))"
    by (auto simp: sizeAccepted_def split: option.splits)
  from selectLoop_probed[of probe maxSize n "[]" "[]" urls] obtain ys where
    ys: "snd ?r = [] @ ys" "prefix ys urls"
        "fst ?r = [] @ filter (\<lambda>u. sizeAccepted (probe u) maxSize) ys"
        "int (length (fst ?r)) < n \<longrightarrow> ys = urls"
    by blast
  from ys(1) have ys_eq: "ys = snd ?r" by simp
  have pr1: "prefix (snd ?r) urls" using ys(2) by (simp only: ys_eq)
  have pr2: "filter (\<lambda>u. sizeAccepted (probe u) maxSize) (snd ?r) = fst ?r"
    using ys(3) by (simp only: ys_eq) simp
  have pr3: "int (length (fst ?r)) < n \<longrightarrow> snd ?r = urls"
    using ys(4) by (simp only: ys_eq)
  from selectLoop_budget[of probe maxSize n "[]" "[]" urls] obtain zs where
    zs: "snd ?r = [] @ zs"
        "\<forall>i<length zs.
           int (length ([]::jsstring list) +
                length (filter (\<lambda>u. sizeAccepted (probe u) maxSize) (take i zs))) < n"
    by blast
  from zs(1) have zs_eq: "zs = snd ?r" by simp
  have bud: "\<forall>i<length (snd ?r).
      int (length (filter (\<lambda>u. sizeAccepted (probe u) maxSize) (take i (snd ?r)))) < n"
    using zs(2) by (simp only: zs_eq) simp
  have len: "length (fst ?r) \<le> nat n" by (simp add: sel)
  show ?thesis
    unfolding selectImageBySize_def
    by (intro conjI) (rule sel, rule acc, rule pr1, rule pr2, rule bud, rule pr3, rule len)
qed

text \<open>
  The theorem at the specification's example: of \<open>[A (2 MB), B (500 KB)]\<close> with a
  size budget of 1 MB and a count budget of 2, \<open>B\<close> alone is selected and, the count
  budget not being reached, both are probed. Of \<open>[B, A]\<close> with a count budget of 1,
  \<open>B\<close> is selected and \<open>A\<close> is not probed.
\<close>

theorem selectImageBySize_selection_witness:
  "fst (selectImageBySize (sizedProbe [(ascii ''A'', 2000000), (ascii ''B'', 500000)])
         [ascii ''A'', ascii ''B''] 1000000 2) = [ascii ''B''] \<and>
   snd (selectImageBySize (sizedProbe [(ascii ''A'', 2000000), (ascii ''B'', 500000)])
         [ascii ''A'', ascii ''B''] 1000000 2) = [ascii ''A'', ascii ''B''] \<and>
   fst (selectImageBySize (sizedProbe [(ascii ''A'', 2000000), (ascii ''B'', 500000)])
         [ascii ''B'', ascii ''A''] 1000000 1) = [ascii ''B''] \<and>
   snd (selectImageBySize (sizedProbe [(ascii ''A'', 2000000), (ascii ''B'', 500000)])
         [ascii ''B'', ascii ''A''] 1000000 1) = [ascii ''B'']"
proof -
  let ?p = "sizedProbe [(ascii ''A'', 2000000), (ascii ''B'', 500000)]"
  let ?r = "selectImageBySize ?p [ascii ''A'', ascii ''B''] 1000000 2"
  let ?q = "selectImageBySize ?p [ascii ''B'', ascii ''A''] 1000000 1"
  note t = selectImageBySize_selection[of ?p "[ascii ''A'', ascii ''B'']" 1000000 2]
  have "fst ?r = take (nat 2) (filter (\<lambda>u. sizeAccepted (?p u) 1000000) [ascii ''A'', ascii ''B''])"
    by (rule t[THEN conjunct1])
  also have "\<dots> = [ascii ''B'']"
    by (simp add: sizedProbe_def sizeAccepted_def ascii_def)
  finally have a: "fst ?r = [ascii ''B'']" .
  then have "int (length (fst ?r)) < 2" by simp
  with t have b: "snd ?r = [ascii ''A'', ascii ''B'']" by blast
  note u = selectImageBySize_selection[of ?p "[ascii ''B'', ascii ''A'']" 1000000 1]
  have "fst ?q = take (nat 1) (filter (\<lambda>u. sizeAccepted (?p u) 1000000) [ascii ''B'', ascii ''A''])"
    by (rule u[THEN conjunct1])
  also have "\<dots> = [ascii ''B'']"
    by (simp add: sizedProbe_def sizeAccepted_def ascii_def)
  finally have c: "fst ?q = [ascii ''B'']" .
  have d: "snd ?q = [ascii ''B'']"
    by (simp add: selectImageBySize_def sizedProbe_def sizeAccepted_def ascii_def)
  from a b c d show ?thesis by (intro conjI)
qed

text \<open>
  C7 as stated fails where a probe succeeds and reports the length 0: the length is
  known and within the budget, so the claim selects the locator, and the code's test
  \<open>len && len <= maxSize\<close> skips it.
\<close>

theorem selectImageBySize_zero_length_counterexample:
  "fst (selectImageBySize (sizedProbe [(ascii ''A'', 0)]) [ascii ''A''] 1000000 1) \<noteq>
     claimedSelection (sizedProbe [(ascii ''A'', 0)]) [ascii ''A''] 1000000 1"
  by (simp add: selectImageBySize_def claimedSelection_def knownLengthWithin_def
        sizedProbe_def sizeAccepted_def ascii_def)



subsection \<open>C5: the early return\<close>

text \<open>
  C5, as the code has it. \<open>downloadImage\<close> returns true at once when the item's
  \<open>imgDownloaded\<close> flag is already true or when its list of locators is empty. In both
  cases it probes nothing, requests nothing and leaves the item and the file system as
  they were; with an empty list of locators the flag therefore stays what it was.
\<close>

theorem downloadImage_short_circuit:
  "imgDownloaded it = Some True \<or> imgUrls it = [] \<Longrightarrow>
     returned (downloadImage k e dst it fs) = True \<and>
     itemAfter (downloadImage k e dst it fs) = it \<and>
     fsAfter (downloadImage k e dst it fs) = fs \<and>
     probed (downloadImage k e dst it fs) = [] \<and>
     requested (downloadImage k e dst it fs) = []"
  by (simp add: downloadImage_short shortCircuits_def)

text \<open>The theorem at an item whose flag is already true.\<close>

theorem downloadImage_short_circuit_witness:
  "returned (downloadImage exConstants (exEnv [] []) (ascii ''img/t'')
      ((freshItem None [ascii ''http://h/a.jpg''])\<lparr>imgDownloaded := Some True\<rparr>) emptyFs) = True \<and>
   itemAfter (downloadImage exConstants (exEnv [] []) (ascii ''img/t'')
      ((freshItem None [ascii ''http://h/a.jpg''])\<lparr>imgDownloaded := Some True\<rparr>) emptyFs) =
     (freshItem None [ascii ''http://h/a.jpg''])\<lparr>imgDownloaded := Some True\<rparr> \<and>
   probed (downloadImage exConstants (exEnv [] []) (ascii ''img/t'')
      ((freshItem None [ascii ''http://h/a.jpg''])\<lparr>imgDownloaded := Some True\<rparr>) emptyFs) = [] \<and>
   requested (downloadImage exConstants (exEnv [] []) (ascii ''img/t'')
      ((freshItem None [ascii ''http://h/a.jpg''])\<lparr>imgDownloaded := Some True\<rparr>) emptyFs) = []"
  using downloadImage_short_circuit[of
      "(freshItem None [ascii ''http://h/a.jpg''])\<lparr>imgDownloaded := Some True\<rparr>"
      exConstants "exEnv [] []" "ascii ''img/t''" emptyFs]
  by simp

text \<open>
  C5 as stated fails on an item without locators whose flag is not set: the call
  returns true and does not set \<open>imgDownloaded\<close> to true.
\<close>

theorem downloadImage_no_locators_counterexample:
  "returned (downloadImage exConstants (exEnv [] []) (ascii ''img/t'') (freshItem None []) emptyFs) = True \<and>
   imgDownloaded (itemAfter (downloadImage exConstants (exEnv [] []) (ascii ''img/t'')
      (freshItem None []) emptyFs)) \<noteq> Some True"
  by (simp add: downloadImage_def freshItem_def)



subsection \<open>C8: the count budget\<close>

text \<open>
  C8, as the code has it. The count budget is 3 when the item has no abstract or an
  empty one (\<open>!item.abstract\<close>), 2 when its abstract is not empty and shorter than the
  threshold, and 1 otherwise. An item that reaches the selection step is selected and
  probed by \<open>selectImageBySize\<close> with this budget and the size budget
  \<open>MAX_IMAGE_SIZE\<close>. So for an item without abstract, not yet downloaded, with at
  least 3 locators that are all accepted, the selection is the first 3 locators in
  their order.
\<close>

theorem downloadImage_count_budget:
  "(abstract it = None \<or> abstract it = Some [] \<longrightarrow> maxNumImg k it = 3) \<and>
   (\<forall>a. abstract it = Some a \<and> a \<noteq> [] \<and>
        int (length a) < MAX_ABSTRACT_LEN_ALLOWING_TWO_IMAGES k \<longrightarrow> maxNumImg k it = 2) \<and>
   (\<forall>a. abstract it = Some a \<and> a \<noteq> [] \<and>
        \<not> int (length a) < MAX_ABSTRACT_LEN_ALLOWING_TWO_IMAGES k \<longrightarrow> maxNumImg k it = 1) \<and>
   (\<not> (imgDownloaded it = Some True \<or> imgUrls it = []) \<longrightarrow>
      selected (downloadImage k e dst it fs) =
        fst (selectImageBySize (httpHead e) (imgUrls it) (MAX_IMAGE_SIZE k) (maxNumImg k it)) \<and>
      probed (downloadImage k e dst it fs) =
        snd (selectImageBySize (httpHead e) (imgUrls it) (MAX_IMAGE_SIZE k) (maxNumImg k it))) \<and>
   ((abstract it = None \<or> abstract it = Some []) \<and> imgDownloaded it \<noteq> Some True \<and>
    3 \<le> length (imgUrls it) \<and>
    (\<forall>u\<in>set (imgUrls it). sizeAccepted (httpHead e u) (MAX_IMAGE_SIZE k)) \<longrightarrow>
      selected (downloadImage k e dst it fs) = take 3 (imgUrls it))"
proof -
  have b3: "abstract it = None \<or> abstract it = Some [] \<longrightarrow> maxNumImg k it = 3"
    by (auto simp: maxNumImg_def)
  have b2: "\<forall>a. abstract it = Some a \<and> a \<noteq> [] \<and>
        int (length a) < MAX_ABSTRACT_LEN_ALLOWING_TWO_IMAGES k \<longrightarrow> maxNumImg k it = 2"
    by (auto simp: maxNumImg_def)
  have b1: "\<forall>a. abstract it = Some a \<and> a \<noteq> [] \<and>
        \<not> int (length a) < MAX_ABSTRACT_LEN_ALLOWING_TWO_IMAGES k \<longrightarrow> maxNumImg k it = 1"
    by (auto simp: maxNumImg_def)
  have sel: "selected (downloadImage k e dst it fs) = fst (selectionOf k e it) \<and>
             probed (downloadImage k e dst it fs) = snd (selectionOf k e it)"
    if ns: "\<not> shortCircuits it"
  proof (cases "fst (selectionOf k e it) = []")
    case True
    with ns show ?thesis by (simp add: downloadImage_nothing_selected)
  next
    case False
    with ns show ?thesis by (simp add: downloadImage_downloads)
  qed
  have p: "\<not> (imgDownloaded it = Some True \<or> imgUrls it = []) \<longrightarrow>
      selected (downloadImage k e dst it fs) =
        fst (selectImageBySize (httpHead e) (imgUrls it) (MAX_IMAGE_SIZE k) (maxNumImg k it)) \<and>
      probed (downloadImage k e dst it fs) =
        snd (selectImageBySize (httpHead e) (imgUrls it) (MAX_IMAGE_SIZE k) (maxNumImg k it))"
    using sel by (simp add: shortCircuits_def selectionOf_def)
  have ex: "selected (downloadImage k e dst it fs) = take 3 (imgUrls it)"
    if h: "(abstract it = None \<or> abstract it = Some []) \<and> imgDownloaded it \<noteq> Some True \<and>
       3 \<le> length (imgUrls it) \<and>
       (\<forall>u\<in>set (imgUrls it). sizeAccepted (httpHead e u) (MAX_IMAGE_SIZE k))"
  proof -
    from h have ns: "\<not> shortCircuits it" by (auto simp: shortCircuits_def)
    from h b3 have m: "maxNumImg k it = 3" by blast
    from h have fl: "filter (\<lambda>u. sizeAccepted (httpHead e u) (MAX_IMAGE_SIZE k)) (imgUrls it) = imgUrls it"
      by simp
    have "fst (selectionOf k e it) = take 3 (imgUrls it)"
      by (simp add: selectionOf_def selectImageBySize_def selectLoop_selected m fl)
    with sel[OF ns] show ?thesis by simp
  qed
  from b3 b2 b1 p ex show ?thesis by blast
qed

text \<open>
  The theorem at the specification's example, 5 locators within the budget and no
  abstract, and at a short and a long abstract with the threshold 10.
\<close>

theorem downloadImage_count_budget_witness:
  "selected (downloadImage exConstants
      (exEnv [(ascii ''http://h/1'', 1000), (ascii ''http://h/2'', 1000), (ascii ''http://h/3'', 1000),
              (ascii ''http://h/4'', 1000), (ascii ''http://h/5'', 1000)] [])
      (ascii ''img/t'')
      (freshItem None [ascii ''http://h/1'', ascii ''http://h/2'', ascii ''http://h/3'',
                       ascii ''http://h/4'', ascii ''http://h/5''])
      emptyFs) =
     [ascii ''http://h/1'', ascii ''http://h/2'', ascii ''http://h/3''] \<and>
   maxNumImg exConstants (freshItem (Some (ascii ''short'')) []) = 2 \<and>
   maxNumImg exConstants (freshItem (Some (ascii ''a long abstract'')) []) = 1"
proof -
  let ?e = "exEnv [(ascii ''http://h/1'', 1000), (ascii ''http://h/2'', 1000), (ascii ''http://h/3'', 1000),
              (ascii ''http://h/4'', 1000), (ascii ''http://h/5'', 1000)] []"
  let ?it = "freshItem None [ascii ''http://h/1'', ascii ''http://h/2'', ascii ''http://h/3'',
                       ascii ''http://h/4'', ascii ''http://h/5'']"
  have h: "(abstract ?it = None \<or> abstract ?it = Some []) \<and> imgDownloaded ?it \<noteq> Some True \<and>
       3 \<le> length (imgUrls ?it) \<and>
       (\<forall>u\<in>set (imgUrls ?it). sizeAccepted (httpHead ?e u) (MAX_IMAGE_SIZE exConstants))"
    by (simp add: freshItem_def exEnv_def sizedProbe_def sizeAccepted_def exConstants_def ascii_def)
  from downloadImage_count_budget[of ?it exConstants ?e "ascii ''img/t''" emptyFs] h
  have a: "selected (downloadImage exConstants ?e (ascii ''img/t'') ?it emptyFs) = take 3 (imgUrls ?it)"
    by blast
  have a': "take 3 (imgUrls ?it) = [ascii ''http://h/1'', ascii ''http://h/2'', ascii ''http://h/3'']"
    by (simp add: freshItem_def)
  have s: "abstract (freshItem (Some (ascii ''short'')) []) = Some (ascii ''short'') \<and> ascii ''short'' \<noteq> [] \<and>
        int (length (ascii ''short'')) < MAX_ABSTRACT_LEN_ALLOWING_TWO_IMAGES exConstants"
    by (simp add: freshItem_def ascii_def exConstants_def)
  from downloadImage_count_budget[of "freshItem (Some (ascii ''short'')) []" exConstants ?e "ascii ''img/t''" emptyFs] s
  have b: "maxNumImg exConstants (freshItem (Some (ascii ''short'')) []) = 2" by blast
  have l: "abstract (freshItem (Some (ascii ''a long abstract'')) []) = Some (ascii ''a long abstract'') \<and>
        ascii ''a long abstract'' \<noteq> [] \<and>
        \<not> int (length (ascii ''a long abstract'')) < MAX_ABSTRACT_LEN_ALLOWING_TWO_IMAGES exConstants"
    by (simp add: freshItem_def ascii_def exConstants_def)
  from downloadImage_count_budget[of "freshItem (Some (ascii ''a long abstract'')) []" exConstants ?e "ascii ''img/t''" emptyFs] l
  have c: "maxNumImg exConstants (freshItem (Some (ascii ''a long abstract'')) []) = 1" by blast
  from a a' b c show ?thesis by simp
qed

text \<open>
  C8 as stated fails on an item whose abstract is the empty string: it has an abstract
  shorter than the threshold, for which the claim gives 2, and the code gives 3.
\<close>

theorem maxNumImg_empty_abstract_counterexample:
  "maxNumImg exConstants (freshItem (Some []) [ascii ''http://h/1'']) = 3 \<and>
   claimedMaxNumImg exConstants (freshItem (Some []) [ascii ''http://h/1'']) = 2"
  by (simp add: maxNumImg_def claimedMaxNumImg_def freshItem_def exConstants_def)


subsection \<open>C10: the recorded paths only grow\<close>

text \<open>
  C10. After every call of \<open>downloadImage\<close> the recorded paths are the paths recorded
  before, in their order, followed by the paths the filter recorded as a repair (each
  the path of a selected locator that exists on disk) and then by the paths of the
  requested downloads that succeeded, in the order they settled. Nothing is removed,
  replaced or reordered; the selection is taken from the item's locators and the
  requests from the selection.
\<close>

theorem downloadImage_imgPaths_grow:
  "\<exists>rep. pathsOf (itemAfter (downloadImage k e dst it fs)) =
       pathsOf it @ rep @
       map (localPath dst)
         (filter (downloadSucceeds e dst)
            (completionOrder (latency e) (requested (downloadImage k e dst it fs)))) \<and>
     set rep \<subseteq> {p \<in> localPath dst ` set (selected (downloadImage k e dst it fs)).
                     file_exists fs p} \<and>
     set (selected (downloadImage k e dst it fs)) \<subseteq> set (imgUrls it) \<and>
     set (requested (downloadImage k e dst it fs)) \<subseteq> set (selected (downloadImage k e dst it fs)) \<and>
     prefix (pathsOf it) (pathsOf (itemAfter (downloadImage k e dst it fs)))"
  by (rule downloadImage_paths_shape)


text \<open>
  The theorem at a post with one path recorded, one image on disk and not recorded, and
  one image to download.
\<close>

theorem downloadImage_imgPaths_grow_witness:
  "pathsOf partialItem = [ascii ''img/t/old.jpg''] \<and>
   pathsOf (itemAfter (downloadImage exConstants (exEnv threeSizes [ascii ''http://h/c.jpg''])
      (ascii ''img/t'') partialItem partialFs)) =
     [ascii ''img/t/old.jpg'', ascii ''img/t/b.jpg'', ascii ''img/t/c.jpg''] \<and>
   prefix [ascii ''img/t/old.jpg'']
     (pathsOf (itemAfter (downloadImage exConstants (exEnv threeSizes [ascii ''http://h/c.jpg''])
        (ascii ''img/t'') partialItem partialFs)))"
proof -
  let ?r = "downloadImage exConstants (exEnv threeSizes [ascii ''http://h/c.jpg''])
      (ascii ''img/t'') partialItem partialFs"
  have a: "pathsOf partialItem = [ascii ''img/t/old.jpg'']"
    by (simp add: pathsOf_def partialItem_def)
  from downloadImage_imgPaths_grow[of exConstants "exEnv threeSizes [ascii ''http://h/c.jpg'']"
      "ascii ''img/t''" partialItem partialFs]
  have "prefix (pathsOf partialItem) (pathsOf (itemAfter ?r))" by blast
  then have c: "prefix [ascii ''img/t/old.jpg''] (pathsOf (itemAfter ?r))"
    by (simp only: a)
  have b: "pathsOf (itemAfter ?r) =
     [ascii ''img/t/old.jpg'', ascii ''img/t/b.jpg'', ascii ''img/t/c.jpg'']"
    by (simp add: downloadImage_def partialItem_def partialFs_def threeSizes_def exEnv_def
        exConstants_def exGet_def sizedProbe_def sizeAccepted_def selectImageBySize_def
        maxNumImg_def localPath_def lastSegment_def slash_def file_exists_def put_file_def
        emptyFs_def completionOrder_def fetchImage_def pathsOf_def ascii_def Let_def)
  from a b c show ?thesis by (intro conjI)
qed



subsection \<open>C4: a failed download does not stop the others\<close>

text \<open>
  C4. Take an item on which \<open>downloadImage\<close> requests downloads, one of which at least
  fails (an error of the request, a status other than 200, or a failed write). Then
  the call returns false and does not set \<open>imgDownloaded\<close> to true: the flag is false
  for every item as the code leaves items, where recorded paths come with a flag
  (\<open>downloadImage_tracked\<close>). Every requested download that succeeds on its own has its
  path recorded and its file on disk, whatever the others did; and a following call,
  under any network that answers the probes the same way, requests only locators that
  the first call requested and failed to download.
\<close>

theorem downloadImage_partial_failure:
  assumes fail: "\<exists>u\<in>set (requested (downloadImage k e dst it fs)). \<not> downloadSucceeds e dst u"
  shows "returned (downloadImage k e dst it fs) = False \<and>
         imgDownloaded (itemAfter (downloadImage k e dst it fs)) \<noteq> Some True \<and>
         ((imgPaths it \<noteq> None \<longrightarrow> imgDownloaded it \<noteq> None) \<longrightarrow>
            imgDownloaded (itemAfter (downloadImage k e dst it fs)) = Some False) \<and>
         (\<forall>u\<in>set (requested (downloadImage k e dst it fs)).
            downloadSucceeds e dst u \<longrightarrow>
              localPath dst u \<in> set (pathsOf (itemAfter (downloadImage k e dst it fs))) \<and>
              file_exists (fsAfter (downloadImage k e dst it fs)) (localPath dst u)) \<and>
         (\<forall>e2. httpHead e2 = httpHead e \<longrightarrow>
            set (requested (downloadImage k e2 dst (itemAfter (downloadImage k e dst it fs))
                   (fsAfter (downloadImage k e dst it fs)))) \<subseteq>
              {u \<in> set (requested (downloadImage k e dst it fs)). \<not> downloadSucceeds e dst u})"
proof -
  let ?r = "downloadImage k e dst it fs"
  from fail have ns: "\<not> shortCircuits it" by (auto simp: downloadImage_short)
  from fail ns have ne: "fst (selectionOf k e it) \<noteq> []"
    by (auto simp: downloadImage_nothing_selected)
  note d = downloadImage_downloads[OF ns ne, of dst fs]
  from fail have nall: "\<not> (\<forall>u\<in>set (todoOf k e dst it fs). downloadSucceeds e dst u)"
    by (simp add: d(2))
  have ret: "returned ?r = False" using nall by (simp add: d(1))
  from ns have nt: "imgDownloaded it \<noteq> Some True" by (simp add: shortCircuits_def)
  have nflag: "imgDownloaded (itemAfter ?r) \<noteq> Some True"
    using nall nt by (simp add: d(6))
  have flag: "(imgPaths it \<noteq> None \<longrightarrow> imgDownloaded it \<noteq> None) \<longrightarrow>
      imgDownloaded (itemAfter ?r) = Some False"
  proof
    assume tracked: "imgPaths it \<noteq> None \<longrightarrow> imgDownloaded it \<noteq> None"
    show "imgDownloaded (itemAfter ?r) = Some False"
    proof (cases "imgPaths it = None")
      case True
      with nall show ?thesis by (simp add: d(6))
    next
      case False
      with tracked nt have "imgDownloaded it = Some False" by (cases "imgDownloaded it") auto
      with False nall show ?thesis by (simp add: d(6))
    qed
  qed
  have rec: "\<forall>u\<in>set (requested ?r). downloadSucceeds e dst u \<longrightarrow>
      localPath dst u \<in> set (pathsOf (itemAfter ?r)) \<and> file_exists (fsAfter ?r) (localPath dst u)"
  proof (intro ballI impI)
    fix u assume u: "u \<in> set (requested ?r)" and ok: "downloadSucceeds e dst u"
    from u have t: "u \<in> set (todoOf k e dst it fs)" by (simp add: d(2))
    from succeeded_recorded[OF ns ne t ok] t ok
    show "localPath dst u \<in> set (pathsOf (itemAfter ?r)) \<and> file_exists (fsAfter ?r) (localPath dst u)"
      by (auto simp: fsAfter_exists[OF ns ne])
  qed
  have retry: "\<forall>e2. httpHead e2 = httpHead e \<longrightarrow>
      set (requested (downloadImage k e2 dst (itemAfter ?r) (fsAfter ?r))) \<subseteq>
        {u \<in> set (requested ?r). \<not> downloadSucceeds e dst u}"
  proof (intro allI impI)
    fix e2 :: env assume hd: "httpHead e2 = httpHead e"
    have ns2: "\<not> shortCircuits (itemAfter ?r)"
      using ns nflag by (simp add: shortCircuits_def downloadImage_keeps)
    have ne2: "fst (selectionOf k e2 (itemAfter ?r)) \<noteq> []"
      using ne by (simp add: selectionOf_after[OF hd])
    show "set (requested (downloadImage k e2 dst (itemAfter ?r) (fsAfter ?r))) \<subseteq>
        {u \<in> set (requested ?r). \<not> downloadSucceeds e dst u}"
      using retry_requests[OF ns ne hd, of dst fs]
      by (simp add: downloadImage_downloads(2)[OF ns2 ne2] d(2))
  qed
  from ret nflag flag rec retry show ?thesis by (intro conjI)
qed

text \<open>
  The theorem at the specification's example: \<open>img2\<close> fails, \<open>img1\<close> and \<open>img3\<close>
  succeed; the paths of \<open>img1\<close> and \<open>img3\<close> are recorded and the next call requests
  \<open>img2\<close> alone.
\<close>

theorem downloadImage_partial_failure_witness:
  "returned (downloadImage exConstants (exEnv imgSizes [img1, img3]) (ascii ''img/t'')
      (freshItem None [img1, img2, img3]) emptyFs) = False \<and>
   imgDownloaded (itemAfter (downloadImage exConstants (exEnv imgSizes [img1, img3]) (ascii ''img/t'')
      (freshItem None [img1, img2, img3]) emptyFs)) = Some False \<and>
   pathsOf (itemAfter (downloadImage exConstants (exEnv imgSizes [img1, img3]) (ascii ''img/t'')
      (freshItem None [img1, img2, img3]) emptyFs)) =
     [ascii ''img/t/img1'', ascii ''img/t/img3''] \<and>
   requested (downloadImage exConstants (exEnv imgSizes [img1, img3]) (ascii ''img/t'')
      (itemAfter (downloadImage exConstants (exEnv imgSizes [img1, img3]) (ascii ''img/t'')
         (freshItem None [img1, img2, img3]) emptyFs))
      (fsAfter (downloadImage exConstants (exEnv imgSizes [img1, img3]) (ascii ''img/t'')
         (freshItem None [img1, img2, img3]) emptyFs))) = [img2]"
proof -
  let ?e = "exEnv imgSizes [img1, img3]"
  let ?it = "freshItem None [img1, img2, img3]"
  let ?r = "downloadImage exConstants ?e (ascii ''img/t'') ?it emptyFs"
  have req: "requested ?r = [img1, img2, img3]"
    by (simp add: ex_simps)
  have bad: "\<not> downloadSucceeds ?e (ascii ''img/t'') img2"
    by (simp add: ex_simps)
  have fail: "\<exists>u\<in>set (requested ?r). \<not> downloadSucceeds ?e (ascii ''img/t'') u"
    using bad by (simp add: req)
  have tracked: "imgPaths ?it \<noteq> None \<longrightarrow> imgDownloaded ?it \<noteq> None"
    by (simp add: freshItem_def)
  note t = downloadImage_partial_failure[OF fail]
  have a: "returned ?r = False" by (rule t[THEN conjunct1])
  have b: "imgDownloaded (itemAfter ?r) = Some False"
    using t[THEN conjunct2, THEN conjunct2, THEN conjunct1] tracked by blast
  have c: "pathsOf (itemAfter ?r) = [ascii ''img/t/img1'', ascii ''img/t/img3'']"
    by (simp add: ex_simps)
  have d: "requested (downloadImage exConstants ?e (ascii ''img/t'') (itemAfter ?r) (fsAfter ?r)) = [img2]"
    by (simp add: ex_simps)
  from a b c d show ?thesis by (intro conjI)
qed



subsection \<open>C9: a second call in a row\<close>

text \<open>
  C9, as the code has it. Call \<open>downloadImage\<close> on an item and then again on the item
  and the file system the first call left. When the probes answer the same way and
  every download has the same outcome in both calls, the second call leaves
  \<open>imgPaths\<close> exactly as the first did. Whatever the network does in the second call,
  the paths of the first call stay a prefix of its paths, it requests no locator whose
  path is recorded or exists on disk, and a selected locator whose path exists on disk
  is not requested and has its path recorded.
\<close>

theorem downloadImage_twice:
  "(httpHead e2 = httpHead e \<and> (\<forall>u. downloadSucceeds e2 dst u = downloadSucceeds e dst u) \<longrightarrow>
      imgPaths (itemAfter (downloadImage k e2 dst (itemAfter (downloadImage k e dst it fs))
                  (fsAfter (downloadImage k e dst it fs)))) =
      imgPaths (itemAfter (downloadImage k e dst it fs))) \<and>
   prefix (pathsOf (itemAfter (downloadImage k e dst it fs)))
     (pathsOf (itemAfter (downloadImage k e2 dst (itemAfter (downloadImage k e dst it fs))
                 (fsAfter (downloadImage k e dst it fs))))) \<and>
   (\<forall>u\<in>set (requested (downloadImage k e2 dst (itemAfter (downloadImage k e dst it fs))
                 (fsAfter (downloadImage k e dst it fs)))).
      localPath dst u \<notin> set (pathsOf (itemAfter (downloadImage k e dst it fs))) \<and>
      \<not> file_exists (fsAfter (downloadImage k e dst it fs)) (localPath dst u)) \<and>
   (\<forall>u\<in>set (selected (downloadImage k e2 dst (itemAfter (downloadImage k e dst it fs))
                 (fsAfter (downloadImage k e dst it fs)))).
      file_exists (fsAfter (downloadImage k e dst it fs)) (localPath dst u) \<longrightarrow>
        u \<notin> set (requested (downloadImage k e2 dst (itemAfter (downloadImage k e dst it fs))
                   (fsAfter (downloadImage k e dst it fs)))) \<and>
        localPath dst u \<in>
          set (pathsOf (itemAfter (downloadImage k e2 dst (itemAfter (downloadImage k e dst it fs))
                 (fsAfter (downloadImage k e dst it fs))))))"
proof -
  let ?r1 = "downloadImage k e dst it fs"
  let ?r2 = "downloadImage k e2 dst (itemAfter ?r1) (fsAfter ?r1)"
  have a: "httpHead e2 = httpHead e \<and> (\<forall>u. downloadSucceeds e2 dst u = downloadSucceeds e dst u) \<longrightarrow>
      imgPaths (itemAfter ?r2) = imgPaths (itemAfter ?r1)"
    using second_call_same_paths[of e2 e dst k it fs] by blast
  have b: "prefix (pathsOf (itemAfter ?r1)) (pathsOf (itemAfter ?r2))"
    by (rule downloadImage_paths_prefix)
  have c: "\<forall>u\<in>set (requested ?r2).
      localPath dst u \<notin> set (pathsOf (itemAfter ?r1)) \<and>
      \<not> file_exists (fsAfter ?r1) (localPath dst u)"
    using requested_fresh[of _ k e2 dst "itemAfter ?r1" "fsAfter ?r1"] by blast
  have d: "\<forall>u\<in>set (selected ?r2).
      file_exists (fsAfter ?r1) (localPath dst u) \<longrightarrow>
        u \<notin> set (requested ?r2) \<and> localPath dst u \<in> set (pathsOf (itemAfter ?r2))"
    using selected_on_disk_repaired[of _ k e2 dst "itemAfter ?r1" "fsAfter ?r1"] by blast
  from a b c d show ?thesis by (intro conjI)
qed

text \<open>The theorem at the example of C4, with the same network in both calls.\<close>

theorem downloadImage_twice_witness:
  "imgPaths (itemAfter (downloadImage exConstants (exEnv imgSizes [img1, img3]) (ascii ''img/t'')
      (freshItem None [img1, img2, img3]) emptyFs)) =
     Some [ascii ''img/t/img1'', ascii ''img/t/img3''] \<and>
   imgPaths (itemAfter (downloadImage exConstants (exEnv imgSizes [img1, img3]) (ascii ''img/t'')
      (itemAfter (downloadImage exConstants (exEnv imgSizes [img1, img3]) (ascii ''img/t'')
         (freshItem None [img1, img2, img3]) emptyFs))
      (fsAfter (downloadImage exConstants (exEnv imgSizes [img1, img3]) (ascii ''img/t'')
         (freshItem None [img1, img2, img3]) emptyFs)))) =
     Some [ascii ''img/t/img1'', ascii ''img/t/img3'']"
proof -
  let ?e = "exEnv imgSizes [img1, img3]"
  let ?it = "freshItem None [img1, img2, img3]"
  let ?r = "downloadImage exConstants ?e (ascii ''img/t'') ?it emptyFs"
  let ?r2 = "downloadImage exConstants ?e (ascii ''img/t'') (itemAfter ?r) (fsAfter ?r)"
  have c: "imgPaths (itemAfter ?r) = Some [ascii ''img/t/img1'', ascii ''img/t/img3'']"
    by (simp add: ex_simps)
  have "httpHead ?e = httpHead ?e \<and>
      (\<forall>u. downloadSucceeds ?e (ascii ''img/t'') u = downloadSucceeds ?e (ascii ''img/t'') u)"
    by simp
  with downloadImage_twice[of ?e ?e "ascii ''img/t''" exConstants ?it emptyFs]
  have "imgPaths (itemAfter ?r2) = imgPaths (itemAfter ?r)" by blast
  with c show ?thesis by simp
qed

text \<open>
  C9 as stated fails when a download that failed in the first call succeeds in the
  second: the probes answer the same way and the file system is the one the first call
  left, still empty, yet the second call records a path the first did not.
\<close>

theorem downloadImage_retry_counterexample:
  "httpHead (exEnv imgSizes [img1]) = httpHead (exEnv imgSizes []) \<and>
   fsAfter (downloadImage exConstants (exEnv imgSizes []) (ascii ''img/t'')
      (freshItem None [img1]) emptyFs) = emptyFs \<and>
   imgPaths (itemAfter (downloadImage exConstants (exEnv imgSizes []) (ascii ''img/t'')
      (freshItem None [img1]) emptyFs)) = Some [] \<and>
   imgPaths (itemAfter (downloadImage exConstants (exEnv imgSizes [img1]) (ascii ''img/t'')
      (itemAfter (downloadImage exConstants (exEnv imgSizes []) (ascii ''img/t'')
         (freshItem None [img1]) emptyFs))
      (fsAfter (downloadImage exConstants (exEnv imgSizes []) (ascii ''img/t'')
         (freshItem None [img1]) emptyFs)))) = Some [ascii ''img/t/img1'']"
proof -
  have a: "httpHead (exEnv imgSizes [img1]) = httpHead (exEnv imgSizes [])"
    by (simp add: exEnv_def)
  have b: "fsAfter (downloadImage exConstants (exEnv imgSizes []) (ascii ''img/t'')
      (freshItem None [img1]) emptyFs) = emptyFs"
    by (simp add: ex_simps)
  have c: "itemAfter (downloadImage exConstants (exEnv imgSizes []) (ascii ''img/t'')
      (freshItem None [img1]) emptyFs) =
      \<lparr>abstract = None, imgUrls = [img1], imgDownloaded = Some False, imgPaths = Some []\<rparr>"
    by (simp add: ex_simps)
  have d: "imgPaths (itemAfter (downloadImage exConstants (exEnv imgSizes [img1]) (ascii ''img/t'')
      \<lparr>abstract = None, imgUrls = [img1], imgDownloaded = Some False, imgPaths = Some []\<rparr>
      emptyFs)) = Some [ascii ''img/t/img1'']"
    by (simp add: ex_simps)
  from a b c d show ?thesis by simp
qed



subsection \<open>C2: the flag of a persisted record\<close>

text \<open>
  C2, as the code has it. Every record that \<open>getEntry\<close> gives to the cache store is
  stored under the source name, and if its \<open>imgAllDownloaded\<close> flag is true then every
  item it holds either has \<open>imgDownloaded\<close> true or has no locators. Whenever the image
  pass was started (the directories were prepared, or the preparation was skipped for
  a cached record), in whatever order the responses of its concurrent calls arrive and
  also when its deadline comes first, the flag is true exactly when every item the
  record holds has \<open>imgDownloaded\<close> true or has no locators. When the preparation
  fails the flag is false.
\<close>

theorem getEntry_persisted_flag:
  "\<forall>(key, v)\<in>set (cacheWrites (getEntry k e tiebaName forceLoad store fs)).
     key = tiebaName \<and>
     cacheAfter (getEntry k e tiebaName forceLoad store fs) tiebaName = Some v \<and>
     (\<exists>its. items v = Some its \<and>
        (imgAllDownloaded v \<longrightarrow>
           (\<forall>it\<in>set its. imgDownloaded it = Some True \<or> imgUrls it = [])) \<and>
        (\<not> remoteCalled (getEntry k e tiebaName forceLoad store fs) \<or>
         fst (prepareForImageDownload k e (IMAGE_DOWNLOAD_DIR k @ [slash] @ tiebaName) fs) \<longrightarrow>
           imgAllDownloaded v =
             (\<forall>it\<in>set its. imgDownloaded it = Some True \<or> imgUrls it = [])) \<and>
        (remoteCalled (getEntry k e tiebaName forceLoad store fs) \<and>
         \<not> fst (prepareForImageDownload k e (IMAGE_DOWNLOAD_DIR k @ [slash] @ tiebaName) fs) \<longrightarrow>
           \<not> imgAllDownloaded v))"
proof (intro ballI, clarify)
  fix key v
  let ?r = "getEntry k e tiebaName forceLoad store fs"
  let ?dst = "IMAGE_DOWNLOAD_DIR k @ [slash] @ tiebaName"
  assume "(key, v) \<in> set (cacheWrites ?r)"
  from getEntry_write_shape[OF this] obtain its0 where
    w: "key = tiebaName" "cacheAfter ?r tiebaName = Some v"
       "items v = Some (fst (snd (tryDownloadAllImageWithTimeout k e ?dst its0 (\<not> remoteCalled ?r) fs)))"
       "imgAllDownloaded v = fst (tryDownloadAllImageWithTimeout k e ?dst its0 (\<not> remoteCalled ?r) fs)"
    by blast
  let ?its = "fst (snd (tryDownloadAllImageWithTimeout k e ?dst its0 (\<not> remoteCalled ?r) fs))"
  have a: "imgAllDownloaded v \<longrightarrow> (\<forall>it\<in>set ?its. imgDownloaded it = Some True \<or> imgUrls it = [])"
    using tryDownloadAll_flag[of k e ?dst its0 "\<not> remoteCalled ?r" fs]
    by (simp add: w(4) list_all_iff shortCircuits_def)
  have b: "\<not> remoteCalled ?r \<or> fst (prepareForImageDownload k e ?dst fs) \<longrightarrow>
      imgAllDownloaded v = (\<forall>it\<in>set ?its. imgDownloaded it = Some True \<or> imgUrls it = [])"
    using tryDownloadAll_ran[of "\<not> remoteCalled ?r" k e ?dst fs its0]
    by (auto simp: w(4) list_all_iff shortCircuits_def)
  have c: "remoteCalled ?r \<and> \<not> fst (prepareForImageDownload k e ?dst fs) \<longrightarrow> \<not> imgAllDownloaded v"
    using tryDownloadAll_not_prepared[of "\<not> remoteCalled ?r" k e ?dst fs its0]
    by (auto simp: w(4))
  from w(1,2,3) a b c
  show "key = tiebaName \<and> cacheAfter ?r tiebaName = Some v \<and>
     (\<exists>its. items v = Some its \<and>
        (imgAllDownloaded v \<longrightarrow> (\<forall>it\<in>set its. imgDownloaded it = Some True \<or> imgUrls it = [])) \<and>
        (\<not> remoteCalled ?r \<or> fst (prepareForImageDownload k e ?dst fs) \<longrightarrow>
           imgAllDownloaded v = (\<forall>it\<in>set its. imgDownloaded it = Some True \<or> imgUrls it = [])) \<and>
        (remoteCalled ?r \<and> \<not> fst (prepareForImageDownload k e ?dst fs) \<longrightarrow>
           \<not> imgAllDownloaded v))"
    by blast
qed

text \<open>
  The theorem at a first fetch. Of two posts, one with an image and one without, the
  image downloads before the deadline: the flag is true. With the same posts the
  deadline comes after the HEAD and before the GET: the record holds the item half
  done, with \<open>imgPaths\<close> empty and \<open>imgDownloaded\<close> false, and the flag false. Of two
  posts that show \<open>img1\<close>, the second also \<open>img3\<close>, both calls filter before either
  has written, so the second downloads \<open>img1\<close> too and records it after \<open>img3\<close>,
  whose response came first.
\<close>

theorem getEntry_persisted_flag_witness:
  "cacheWrites (getEntry exConstants (envAt 0 (Returns (Some [freshItem None [img1], postX])))
      tieba False emptyStore emptyFs) =
     [(tieba,
       \<lparr>items = Some [\<lparr>abstract = None, imgUrls = [img1], imgDownloaded = Some True,
                        imgPaths = Some [ascii ''img/cats/img1'']\<rparr>, postX],
        date = Some 0, imgAllDownloaded = True\<rparr>)] \<and>
   cacheAfter (getEntry exConstants (envAt 0 (Returns (Some [freshItem None [img1], postX])))
      tieba False emptyStore emptyFs) tieba =
     Some \<lparr>items = Some [\<lparr>abstract = None, imgUrls = [img1], imgDownloaded = Some True,
                        imgPaths = Some [ascii ''img/cats/img1'']\<rparr>, postX],
        date = Some 0, imgAllDownloaded = True\<rparr> \<and>
   cacheWrites (getEntry exConstants
      ((envAt 0 (Returns (Some [freshItem None [img1], postX])))\<lparr>imageEvents := [(0, 0)]\<rparr>)
      tieba False emptyStore emptyFs) =
     [(tieba,
       \<lparr>items = Some [\<lparr>abstract = None, imgUrls = [img1], imgDownloaded = Some False,
                        imgPaths = Some []\<rparr>, postX],
        date = Some 0, imgAllDownloaded = False\<rparr>)] \<and>
   cacheAfter (getEntry exConstants
      ((envAt 0 (Returns (Some [freshItem None [img1], postX])))\<lparr>imageEvents := [(0, 0)]\<rparr>)
      tieba False emptyStore emptyFs) tieba =
     Some \<lparr>items = Some [\<lparr>abstract = None, imgUrls = [img1], imgDownloaded = Some False,
                        imgPaths = Some []\<rparr>, postX],
        date = Some 0, imgAllDownloaded = False\<rparr> \<and>
   cacheWrites (getEntry exConstants
      ((envAt 0 (Returns (Some [freshItem None [img1], freshItem None [img1, img3]])))
         \<lparr>imageEvents := [(0, 0), (Suc 0, 0), (Suc 0, 0), (Suc 0, Suc 0), (Suc 0, 0), (0, 0)]\<rparr>)
      tieba False emptyStore emptyFs) =
     [(tieba,
       \<lparr>items = Some [\<lparr>abstract = None, imgUrls = [img1], imgDownloaded = Some True,
                        imgPaths = Some [ascii ''img/cats/img1'']\<rparr>,
                      \<lparr>abstract = None, imgUrls = [img1, img3], imgDownloaded = Some True,
                        imgPaths = Some [ascii ''img/cats/img3'', ascii ''img/cats/img1'']\<rparr>],
        date = Some 0, imgAllDownloaded = True\<rparr>)]"
proof -
  let ?e = "envAt 0 (Returns (Some [freshItem None [img1], postX]))"
  let ?r = "getEntry exConstants ?e tieba False emptyStore emptyFs"
  let ?v = "\<lparr>items = Some [\<lparr>abstract = None, imgUrls = [img1], imgDownloaded = Some True,
                        imgPaths = Some [ascii ''img/cats/img1'']\<rparr>, postX],
        date = Some 0, imgAllDownloaded = True\<rparr>"
  let ?e' = "?e\<lparr>imageEvents := [(0, 0)]\<rparr>"
  let ?r' = "getEntry exConstants ?e' tieba False emptyStore emptyFs"
  let ?v' = "\<lparr>items = Some [\<lparr>abstract = None, imgUrls = [img1], imgDownloaded = Some False,
                        imgPaths = Some []\<rparr>, postX],
        date = Some 0, imgAllDownloaded = False\<rparr>"
  have w: "cacheWrites ?r = [(tieba, ?v)]"
    by (simp add: entry_simps ex_simps)
  then have "(tieba, ?v) \<in> set (cacheWrites ?r)" by simp
  with getEntry_persisted_flag[of exConstants ?e tieba False emptyStore emptyFs]
  have c: "cacheAfter ?r tieba = Some ?v" by blast
  have w': "cacheWrites ?r' = [(tieba, ?v')]"
    by (simp add: entry_simps ex_simps)
  then have "(tieba, ?v') \<in> set (cacheWrites ?r')" by simp
  with getEntry_persisted_flag[of exConstants ?e' tieba False emptyStore emptyFs]
  have c': "cacheAfter ?r' tieba = Some ?v'" by blast
  have w'': "cacheWrites (getEntry exConstants
      ((envAt 0 (Returns (Some [freshItem None [img1], freshItem None [img1, img3]])))
         \<lparr>imageEvents := [(0, 0), (Suc 0, 0), (Suc 0, 0), (Suc 0, Suc 0), (Suc 0, 0), (0, 0)]\<rparr>)
      tieba False emptyStore emptyFs) =
     [(tieba,
       \<lparr>items = Some [\<lparr>abstract = None, imgUrls = [img1], imgDownloaded = Some True,
                        imgPaths = Some [ascii ''img/cats/img1'']\<rparr>,
                      \<lparr>abstract = None, imgUrls = [img1, img3], imgDownloaded = Some True,
                        imgPaths = Some [ascii ''img/cats/img3'', ascii ''img/cats/img1'']\<rparr>],
        date = Some 0, imgAllDownloaded = True\<rparr>)]"
    by (simp add: entry_simps ex_simps)
  from w c w' c' w'' show ?thesis by (intro conjI)
qed

text \<open>
  C2 as stated fails on a post without locators: \<open>downloadImage\<close> returns true for it
  and leaves its \<open>imgDownloaded\<close> unset, so the record is stored with the flag true
  while its item does not have \<open>imgDownloaded\<close> true.
\<close>

theorem getEntry_flag_without_locators_counterexample:
  "cacheWrites (getEntry exConstants (envAt 0 (Returns (Some [freshItem None []])))
      tieba False emptyStore emptyFs) =
     [(tieba, \<lparr>items = Some [freshItem None []], date = Some 0, imgAllDownloaded = True\<rparr>)] \<and>
   imgDownloaded (freshItem None []) \<noteq> Some True"
  by (simp add: entry_simps ex_simps)



subsection \<open>C1: freshness and the remote client\<close>

text \<open>
  C1, as the code has it. \<open>isCacheValid\<close> holds exactly when a record exists, has an
  \<open>items\<close> list (which may be empty), has a capture time, and the time elapsed since
  then is less than the refresh interval: the preference when it is set, the default
  otherwise, in minutes. For a source name that is not empty, \<open>getEntry\<close> calls the
  remote client exactly when \<open>forceLoad\<close> is true or the predicate is false; for the
  empty name it returns at once and never calls it.
\<close>

theorem getEntry_freshness:
  "isCacheValid k e cached nowDate =
     (\<exists>c its d. cached = Some c \<and> items c = Some its \<and> date c = Some d \<and>
        nowDate - d <
          (case refreshCircle e of None \<Rightarrow> DEFAULT_REFRESH_CIRCLE k | Some m \<Rightarrow> m) * 60000) \<and>
   (tiebaName \<noteq> [] \<longrightarrow>
      remoteCalled (getEntry k e tiebaName forceLoad store fs) =
        (forceLoad \<or> \<not> isCacheValid k e (store tiebaName) (nowAtCheck e))) \<and>
   (tiebaName = [] \<longrightarrow> \<not> remoteCalled (getEntry k e tiebaName forceLoad store fs))"
proof (intro conjI impI)
  show "isCacheValid k e cached nowDate =
     (\<exists>c its d. cached = Some c \<and> items c = Some its \<and> date c = Some d \<and>
        nowDate - d <
          (case refreshCircle e of None \<Rightarrow> DEFAULT_REFRESH_CIRCLE k | Some m \<Rightarrow> m) * 60000)"
    by (simp add: isCacheValid_iff refreshInterval_def)
next
  assume "tiebaName \<noteq> []"
  then show "remoteCalled (getEntry k e tiebaName forceLoad store fs) =
        (forceLoad \<or> \<not> isCacheValid k e (store tiebaName) (nowAtCheck e))"
    by (rule getEntry_remoteCalled)
next
  assume "tiebaName = []"
  then show "\<not> remoteCalled (getEntry k e tiebaName forceLoad store fs)"
    by (simp add: getEntry_empty_name)
qed

text \<open>
  The theorem at the specification's example, a refresh interval of 30 minutes: a
  record captured 10 minutes ago is reused without a call of the remote client, one
  captured 40 minutes ago is not.
\<close>

theorem getEntry_freshness_witness:
  "\<not> remoteCalled (getEntry exConstants (envAt 600000 Throws) tieba False (storeWith recordX) emptyFs) \<and>
   remoteCalled (getEntry exConstants (envAt 2400000 Throws) tieba False (storeWith recordX) emptyFs)"
proof -
  have n: "tieba \<noteq> []" by (simp add: tieba_def ascii_def)
  have a: "isCacheValid exConstants (envAt 600000 Throws) (storeWith recordX tieba)
             (nowAtCheck (envAt 600000 Throws))"
    by (simp add: entry_simps ex_simps)
  have b: "\<not> isCacheValid exConstants (envAt 2400000 Throws) (storeWith recordX tieba)
             (nowAtCheck (envAt 2400000 Throws))"
    by (simp add: entry_simps ex_simps)
  from getEntry_freshness[of exConstants "envAt 600000 Throws" None 0 tieba False
         "storeWith recordX" emptyFs] n a
  have c: "\<not> remoteCalled (getEntry exConstants (envAt 600000 Throws) tieba False
             (storeWith recordX) emptyFs)" by blast
  from getEntry_freshness[of exConstants "envAt 2400000 Throws" None 0 tieba False
         "storeWith recordX" emptyFs] n b
  have d: "remoteCalled (getEntry exConstants (envAt 2400000 Throws) tieba False
             (storeWith recordX) emptyFs)" by blast
  from c d show ?thesis by (intro conjI)
qed

text \<open>
  C1 as stated fails on a record whose \<open>items\<close> is the empty list, captured 10 minutes
  ago: an empty array is truthy, so the predicate holds and the remote client is not
  called, where the claim asks for non-empty items. It also fails on the empty source
  name with \<open>forceLoad\<close> true, for which the remote client is not called.
\<close>

theorem getEntry_empty_items_counterexample:
  "isCacheValid exConstants (envAt 600000 (Returns (Some [postX]))) (Some recordEmpty) 600000 \<and>
   \<not> claimedFresh exConstants (envAt 600000 (Returns (Some [postX]))) (Some recordEmpty) 600000 \<and>
   \<not> remoteCalled (getEntry exConstants (envAt 600000 (Returns (Some [postX]))) tieba False
        (storeWith recordEmpty) emptyFs) \<and>
   \<not> remoteCalled (getEntry exConstants (envAt 600000 (Returns (Some [postX]))) [] True
        (storeWith recordEmpty) emptyFs)"
  by (simp add: entry_simps ex_simps claimedFresh_def)



subsection \<open>C3: the fallback to the cached record\<close>

text \<open>
  C3. When \<open>getEntry\<close> calls the remote client (the name is not empty, and the reload
  is forced or the cache is not fresh) and the fetch throws, times out or yields
  nothing, no record is given to the cache store and the store stays as it was; and
  when the store holds a record with items and a capture time under the name, however
  old, \<open>getEntry\<close> returns exactly these items and this capture time.
\<close>

theorem getEntry_fetch_fails:
  assumes "tiebaName \<noteq> []"
    and "forceLoad \<or> \<not> isCacheValid k e (store tiebaName) (nowAtCheck e)"
    and "fetchPosts e tiebaName (POST_INFO_TIMEOUT k) (MAX_NUMBER_OF_POST k) \<in>
           {Throws, TimesOut, Returns None}"
  shows "remoteCalled (getEntry k e tiebaName forceLoad store fs) \<and>
         cacheWrites (getEntry k e tiebaName forceLoad store fs) = [] \<and>
         cacheAfter (getEntry k e tiebaName forceLoad store fs) = store \<and>
         (\<forall>c its d. store tiebaName = Some c \<and> items c = Some its \<and> date c = Some d \<longrightarrow>
            info (getEntry k e tiebaName forceLoad store fs) = Some its \<and>
            entryDate (getEntry k e tiebaName forceLoad store fs) = Some d)"
proof -
  from assms(3) have
    "tryGetTiebaPostWithTimeout e tiebaName (POST_INFO_TIMEOUT k) (MAX_NUMBER_OF_POST k) = None"
    by (simp only: tryGet_None_iff)
  with assms(1,2) have g: "getEntry k e tiebaName forceLoad store fs =
     \<lparr>info = (case store tiebaName of
                None \<Rightarrow> None
              | Some c \<Rightarrow> if items c \<noteq> None \<and> date c \<noteq> None then items c else None),
      entryDate = (case store tiebaName of
                None \<Rightarrow> None
              | Some c \<Rightarrow> if items c \<noteq> None \<and> date c \<noteq> None then date c else None),
      cacheAfter = store, fsOut = fs, remoteCalled = True, cacheWrites = []\<rparr>"
    by (rule getEntry_fetch_failed)
  show ?thesis by (simp add: g)
qed

text \<open>
  The theorem at the specification's example: the record holds \<open>[X]\<close> captured at
  time 0, 40 minutes have passed, and the fetch times out.
\<close>

theorem getEntry_fetch_fails_witness:
  "info (getEntry exConstants (envAt 2400000 TimesOut) tieba False (storeWith recordX) emptyFs) =
     Some [postX] \<and>
   entryDate (getEntry exConstants (envAt 2400000 TimesOut) tieba False (storeWith recordX) emptyFs) =
     Some 0 \<and>
   cacheWrites (getEntry exConstants (envAt 2400000 TimesOut) tieba False (storeWith recordX) emptyFs) = [] \<and>
   cacheAfter (getEntry exConstants (envAt 2400000 TimesOut) tieba False (storeWith recordX) emptyFs) =
     storeWith recordX"
proof -
  have n: "tieba \<noteq> []" by (simp add: tieba_def ascii_def)
  have b: "False \<or> \<not> isCacheValid exConstants (envAt 2400000 TimesOut) (storeWith recordX tieba)
             (nowAtCheck (envAt 2400000 TimesOut))"
    by (simp add: entry_simps ex_simps)
  have f: "fetchPosts (envAt 2400000 TimesOut) tieba (POST_INFO_TIMEOUT exConstants)
             (MAX_NUMBER_OF_POST exConstants) \<in> {Throws, TimesOut, Returns None}"
    by (simp add: envAt_def)
  note t = getEntry_fetch_fails[of tieba False exConstants "envAt 2400000 TimesOut"
      "storeWith recordX" emptyFs, OF n b f]
  have r: "storeWith recordX tieba = Some recordX \<and> items recordX = Some [postX] \<and>
           date recordX = Some 0"
    by (simp add: storeWith_def recordX_def)
  from t r show ?thesis by blast
qed



subsection \<open>C6: when \<open>info\<close> is null\<close>

text \<open>
  C6, as the code has it. For a source name that is not empty, \<open>info\<close> is null only
  when the remote client was called, its fetch threw, timed out or yielded nothing, and
  the store holds no record with items and a capture time under the name. For the
  empty name \<open>info\<close> and \<open>date\<close> are null, whatever the store and the remote client
  hold. With no record under the name and a failing remote client, \<open>info\<close> and
  \<open>date\<close> are null.
\<close>

theorem getEntry_info_null:
  "(tiebaName \<noteq> [] \<and> info (getEntry k e tiebaName forceLoad store fs) = None \<longrightarrow>
      remoteCalled (getEntry k e tiebaName forceLoad store fs) \<and>
      fetchPosts e tiebaName (POST_INFO_TIMEOUT k) (MAX_NUMBER_OF_POST k) \<in>
        {Throws, TimesOut, Returns None} \<and>
      \<not> (\<exists>c its d. store tiebaName = Some c \<and> items c = Some its \<and> date c = Some d)) \<and>
   (tiebaName = [] \<longrightarrow>
      info (getEntry k e tiebaName forceLoad store fs) = None \<and>
      entryDate (getEntry k e tiebaName forceLoad store fs) = None) \<and>
   (store tiebaName = None \<and>
    fetchPosts e tiebaName (POST_INFO_TIMEOUT k) (MAX_NUMBER_OF_POST k) \<in>
      {Throws, TimesOut, Returns None} \<longrightarrow>
      info (getEntry k e tiebaName forceLoad store fs) = None \<and>
      entryDate (getEntry k e tiebaName forceLoad store fs) = None)"
proof (intro conjI impI)
  assume a: "tiebaName \<noteq> [] \<and> info (getEntry k e tiebaName forceLoad store fs) = None"
  then have name: "tiebaName \<noteq> []" and null: "info (getEntry k e tiebaName forceLoad store fs) = None"
    by simp_all
  from getEntry_info_some[OF name, of forceLoad k e store fs] null
  have f: "forceLoad \<or> \<not> isCacheValid k e (store tiebaName) (nowAtCheck e)"
    and t: "tryGetTiebaPostWithTimeout e tiebaName (POST_INFO_TIMEOUT k) (MAX_NUMBER_OF_POST k) = None"
    by blast+
  from getEntry_fetch_failed[of tiebaName forceLoad k e store fs] name f t
  have g: "getEntry k e tiebaName forceLoad store fs =
     \<lparr>info = (case store tiebaName of
                None \<Rightarrow> None
              | Some c \<Rightarrow> if items c \<noteq> None \<and> date c \<noteq> None then items c else None),
      entryDate = (case store tiebaName of
                None \<Rightarrow> None
              | Some c \<Rightarrow> if items c \<noteq> None \<and> date c \<noteq> None then date c else None),
      cacheAfter = store, fsOut = fs, remoteCalled = True, cacheWrites = []\<rparr>"
    by blast
  show "remoteCalled (getEntry k e tiebaName forceLoad store fs)" by (simp add: g)
  show "fetchPosts e tiebaName (POST_INFO_TIMEOUT k) (MAX_NUMBER_OF_POST k) \<in>
        {Throws, TimesOut, Returns None}"
    using t by (simp only: tryGet_None_iff)
  show "\<not> (\<exists>c its d. store tiebaName = Some c \<and> items c = Some its \<and> date c = Some d)"
  proof
    assume "\<exists>c its d. store tiebaName = Some c \<and> items c = Some its \<and> date c = Some d"
    then obtain c its d where "store tiebaName = Some c" "items c = Some its" "date c = Some d"
      by blast
    then have "info (getEntry k e tiebaName forceLoad store fs) = Some its"
      by (simp add: g)
    with null show False by simp
  qed
next
  assume "tiebaName = []"
  then show "info (getEntry k e tiebaName forceLoad store fs) = None"
    by (simp add: getEntry_empty_name)
next
  assume "tiebaName = []"
  then show "entryDate (getEntry k e tiebaName forceLoad store fs) = None"
    by (simp add: getEntry_empty_name)
next
  assume a: "store tiebaName = None \<and>
    fetchPosts e tiebaName (POST_INFO_TIMEOUT k) (MAX_NUMBER_OF_POST k) \<in>
      {Throws, TimesOut, Returns None}"
  then have t: "tryGetTiebaPostWithTimeout e tiebaName (POST_INFO_TIMEOUT k) (MAX_NUMBER_OF_POST k) = None"
    by (simp only: tryGet_None_iff)
  from a have nv: "\<not> isCacheValid k e (store tiebaName) (nowAtCheck e)"
    by (simp add: isCacheValid_def)
  show "info (getEntry k e tiebaName forceLoad store fs) = None"
  proof (cases "tiebaName = []")
    case True
    then show ?thesis by (simp add: getEntry_empty_name)
  next
    case False
    from getEntry_fetch_failed[of tiebaName forceLoad k e store fs] False nv t a
    show ?thesis by simp
  qed
next
  assume a: "store tiebaName = None \<and>
    fetchPosts e tiebaName (POST_INFO_TIMEOUT k) (MAX_NUMBER_OF_POST k) \<in>
      {Throws, TimesOut, Returns None}"
  then have t: "tryGetTiebaPostWithTimeout e tiebaName (POST_INFO_TIMEOUT k) (MAX_NUMBER_OF_POST k) = None"
    by (simp only: tryGet_None_iff)
  from a have nv: "\<not> isCacheValid k e (store tiebaName) (nowAtCheck e)"
    by (simp add: isCacheValid_def)
  show "entryDate (getEntry k e tiebaName forceLoad store fs) = None"
  proof (cases "tiebaName = []")
    case True
    then show ?thesis by (simp add: getEntry_empty_name)
  next
    case False
    from getEntry_fetch_failed[of tiebaName forceLoad k e store fs] False nv t a
    show ?thesis by simp
  qed
qed

text \<open>The theorem at the specification's example: no record, and the remote client throws.\<close>

theorem getEntry_info_null_witness:
  "info (getEntry exConstants (envAt 0 Throws) tieba False emptyStore emptyFs) = None \<and>
   entryDate (getEntry exConstants (envAt 0 Throws) tieba False emptyStore emptyFs) = None"
proof -
  have "emptyStore tieba = None \<and>
    fetchPosts (envAt 0 Throws) tieba (POST_INFO_TIMEOUT exConstants) (MAX_NUMBER_OF_POST exConstants) \<in>
      {Throws, TimesOut, Returns None}"
    by (simp add: emptyStore_def envAt_def)
  with getEntry_info_null[of tieba exConstants "envAt 0 Throws" False emptyStore emptyFs]
  show ?thesis by blast
qed

text \<open>
  C6 as stated fails on the empty source name: \<open>info\<close> is null although the remote
  client, never called, would have returned a post. It also fails when the fetch
  fails and the record under the name has items and no date: a record exists and
  \<open>info\<close> is null.
\<close>

theorem getEntry_info_null_counterexample:
  "info (getEntry exConstants (envAt 0 (Returns (Some [postX]))) [] False emptyStore emptyFs) = None \<and>
   \<not> remoteCalled (getEntry exConstants (envAt 0 (Returns (Some [postX]))) [] False emptyStore emptyFs) \<and>
   fetchPosts (envAt 0 (Returns (Some [postX]))) [] (POST_INFO_TIMEOUT exConstants)
     (MAX_NUMBER_OF_POST exConstants) = Returns (Some [postX]) \<and>
   storeWith recordUndated tieba = Some recordUndated \<and>
   info (getEntry exConstants (envAt 0 Throws) tieba False (storeWith recordUndated) emptyFs) = None"
  by (simp add: entry_simps ex_simps)

end
